theory Spec2Isabelle
  imports Main "HOL-Library.Word"
begin

unbundle bit_operations_syntax

section \<open>On-disk format (fs.h)\<close>

text \<open>
  The C integer types of the 32-bit target: \<open>uchar\<close> is an 8-bit word, \<open>short\<close> and
  \<open>ushort\<close> are 16-bit words, \<open>int\<close> and \<open>uint\<close> are 32-bit words. Signed values are
  read with \<open>sint\<close>, unsigned ones with \<open>unat\<close>.
\<close>

type_synonym u8 = "8 word"
type_synonym u16 = "16 word"
type_synonym u32 = "32 word"

definition ROOTINO :: u32 where "ROOTINO = 1"
definition BSIZE :: nat where "BSIZE = 512"
definition NDIRECT :: nat where "NDIRECT = 11"
definition NINDIRECT :: nat where "NINDIRECT = BSIZE div 4"
definition MAXFILE :: nat where "MAXFILE = NDIRECT + NINDIRECT + NINDIRECT * NINDIRECT"
definition DIRSIZ :: nat where "DIRSIZ = 14"

text \<open>\<open>sizeof(struct dinode)\<close>: four shorts, one uint and \<open>NDIRECT + 2\<close> uints.\<close>

definition DINODE_SIZE :: nat where "DINODE_SIZE = 4 * 2 + 4 + 4 * (NDIRECT + 1 + 1)"
definition IPB :: nat where "IPB = BSIZE div DINODE_SIZE"
definition BPB :: nat where "BPB = BSIZE * 8"

record superblock =
  size_sb :: u32
  nblocks :: u32
  ninodes :: u32
  nlog :: u32
  logstart :: u32
  inodestart :: u32
  bmapstart :: u32

definition IBLOCK :: "u32 \<Rightarrow> superblock \<Rightarrow> u32" where
  "IBLOCK i sb = i div of_nat IPB + inodestart sb"

definition BBLOCK :: "u32 \<Rightarrow> superblock \<Rightarrow> u32" where
  "BBLOCK b sb = b div of_nat BPB + bmapstart sb"

section \<open>Blocks as byte arrays\<close>

text \<open>
  A block is the \<open>uchar data[BSIZE]\<close> array of a buffer; only the indices below \<open>BSIZE\<close>
  are ever read or written. A \<open>uint\<close> or a \<open>short\<close> stored in a block is read through a
  pointer cast in the source; on the little-endian target that is the byte at the lowest
  address first.
\<close>

type_synonym block = "nat \<Rightarrow> u8"

definition rd_u32 :: "block \<Rightarrow> nat \<Rightarrow> u32" where
  "rd_u32 d p = ucast (d p) OR push_bit 8 (ucast (d (p + 1)))
     OR push_bit 16 (ucast (d (p + 2))) OR push_bit 24 (ucast (d (p + 3)))"

definition wr_u32 :: "block \<Rightarrow> nat \<Rightarrow> u32 \<Rightarrow> block" where
  "wr_u32 d p v = d(p := ucast v, p + 1 := ucast (drop_bit 8 v),
     p + 2 := ucast (drop_bit 16 v), p + 3 := ucast (drop_bit 24 v))"

definition rd_u16 :: "block \<Rightarrow> nat \<Rightarrow> u16" where
  "rd_u16 d p = ucast (d p) OR push_bit 8 (ucast (d (p + 1)))"

definition wr_u16 :: "block \<Rightarrow> nat \<Rightarrow> u16 \<Rightarrow> block" where
  "wr_u16 d p v = d(p := ucast v, p + 1 := ucast (drop_bit 8 v))"

section \<open>Buffer cache, log and fatal errors\<close>

text \<open>
  A \<open>panic\<close> halts the kernel; it is the error value \<open>Panic\<close> with the message of the
  source. \<open>IntOverflow\<close> marks the one place where a signed \<open>int\<close> counter of the source
  would leave its range (undefined in C). \<open>Deadlock\<close> is the outcome of acquiring a
  sleep-lock that the caller already holds: the caller sleeps and nobody can wake it.
\<close>

datatype error = Panic string | IntOverflow | Deadlock

text \<open>
  Modelled from the spec: the buffer cache (\<open>bread\<close>, \<open>brelse\<close>) and the log
  (\<open>log_write\<close>) are external collaborators whose code is not part of the file system
  sources. \<open>fetch(device, block_number)\<close> gives the one cached view of a block, so a store
  through \<open>bp->data\<close> is a store into \<open>disk\<close> at that (device, block) pair, and a later
  fetch of the same block sees it; \<open>release\<close> changes no data; \<open>mark_dirty\<close> queues the
  block for the commit, recorded here as the list \<open>logw\<close> of (device, block) pairs in call
  order. The sleep-locks of the buffers belong to the concurrency model and are not
  represented. \<open>sb\<close> is the global superblock variable of fs.c.
\<close>

record dstate =
  disk :: "u32 \<times> u32 \<Rightarrow> block"
  sb :: superblock
  logw :: "(u32 \<times> u32) list"

definition bread :: "dstate \<Rightarrow> u32 \<Rightarrow> u32 \<Rightarrow> block" where
  "bread s dev bno = disk s (dev, bno)"

definition buf_set :: "dstate \<Rightarrow> u32 \<Rightarrow> u32 \<Rightarrow> block \<Rightarrow> dstate" where
  "buf_set s dev bno d = s\<lparr>disk := (disk s)((dev, bno) := d)\<rparr>"

definition log_write :: "dstate \<Rightarrow> u32 \<Rightarrow> u32 \<Rightarrow> dstate" where
  "log_write s dev bno = s\<lparr>logw := logw s @ [(dev, bno)]\<rparr>"

section \<open>Block allocator\<close>

text \<open>\<open>readsb\<close>: the seven \<open>uint\<close> fields of the superblock, copied from block 1.\<close>

definition readsb :: "dstate \<Rightarrow> u32 \<Rightarrow> superblock" where
  "readsb s dev = (let d = bread s dev 1 in
     \<lparr>size_sb = rd_u32 d 0, nblocks = rd_u32 d 4, ninodes = rd_u32 d 8, nlog = rd_u32 d 12,
      logstart = rd_u32 d 16, inodestart = rd_u32 d 20, bmapstart = rd_u32 d 24\<rparr>)"

text \<open>\<open>bzero\<close>: \<open>memset(bp->data, 0, BSIZE)\<close>, then \<open>log_write\<close>.\<close>

definition bzero :: "dstate \<Rightarrow> u32 \<Rightarrow> u32 \<Rightarrow> dstate" where
  "bzero s dev bno =
     log_write (buf_set s dev bno (\<lambda>i. if i < BSIZE then 0 else bread s dev bno i)) dev bno"

text \<open>
  The body of the inner loop of \<open>balloc\<close> when the bit is free: mark it, log the bitmap
  block, zero the new block.
\<close>

definition balloc_mark :: "dstate \<Rightarrow> u32 \<Rightarrow> nat \<Rightarrow> nat \<Rightarrow> dstate" where
  "balloc_mark s dev b bi =
     (let bp = BBLOCK (of_nat b) (sb s);
          d = bread s dev bp;
          m = push_bit (bi mod 8) 1;
          s1 = buf_set s dev bp (d(bi div 8 := d (bi div 8) OR m));
          s2 = log_write s1 dev bp
      in bzero s2 dev (of_nat (b + bi)))"

text \<open>
  The inner loop \<open>for(bi = 0; bi < BPB && b + bi < sb.size; bi++)\<close>; \<open>None\<close> when the loop
  ends without finding a free bit. \<open>b\<close> and \<open>bi\<close> are the non-negative values of the
  \<open>int\<close> variables.
\<close>

function balloc_scan :: "dstate \<Rightarrow> u32 \<Rightarrow> nat \<Rightarrow> nat \<Rightarrow> (u32 \<times> dstate) option" where
  "balloc_scan s dev b bi =
     (if bi < BPB \<and> b + bi < unat (size_sb (sb s)) then
        (if bread s dev (BBLOCK (of_nat b) (sb s)) (bi div 8) AND push_bit (bi mod 8) 1 = 0
         then Some (of_nat (b + bi), balloc_mark s dev b bi)
         else balloc_scan s dev b (Suc bi))
      else None)"
  by pat_completeness auto
termination
  by (relation "measure (\<lambda>(s, dev, b, bi). BPB - bi)") auto

declare balloc_scan.simps [simp del]

text \<open>
  The outer loop \<open>for(b = 0; b < sb.size; b += BPB)\<close>. \<open>b\<close> is an \<open>int\<close>: the step
  \<open>b += BPB\<close> must stay below \<open>2^31\<close>.
\<close>

function balloc_from :: "dstate \<Rightarrow> u32 \<Rightarrow> nat \<Rightarrow> error + (u32 \<times> dstate)" where
  "balloc_from s dev b =
     (if b < unat (size_sb (sb s)) then
        (case balloc_scan s dev b 0 of
           Some r \<Rightarrow> Inr r
         | None \<Rightarrow> if b + BPB < 2 ^ 31 then balloc_from s dev (b + BPB) else Inl IntOverflow)
      else Inl (Panic ''balloc: out of blocks''))"
  by pat_completeness auto
termination
  by (relation "measure (\<lambda>(s, dev, b). unat (size_sb (sb s)) - b)") (auto simp: BPB_def BSIZE_def)

declare balloc_from.simps [simp del]

definition balloc :: "dstate \<Rightarrow> u32 \<Rightarrow> error + (u32 \<times> dstate)" where
  "balloc s dev = balloc_from s dev 0"

text \<open>\<open>bfree\<close> re-reads the superblock into the global \<open>sb\<close> before it locates the bit.\<close>

definition bfree :: "dstate \<Rightarrow> u32 \<Rightarrow> u32 \<Rightarrow> error + dstate" where
  "bfree s0 dev b =
     (let s = s0\<lparr>sb := readsb s0 dev\<rparr>;
          bp = BBLOCK b (sb s);
          d = bread s dev bp;
          bi = unat b mod BPB;
          m = push_bit (bi mod 8) 1
      in if d (bi div 8) AND m = 0 then Inl (Panic ''freeing free block'')
         else Inr (log_write (buf_set s dev bp (d(bi div 8 := d (bi div 8) AND NOT m))) dev bp))"

text \<open>The bitmap bit of block \<open>k\<close>, as \<open>balloc\<close> and \<open>bfree\<close> locate it.\<close>

definition bused :: "dstate \<Rightarrow> u32 \<Rightarrow> u32 \<Rightarrow> bool" where
  "bused s dev k = bit (disk s (dev, BBLOCK k (sb s)) (unat k mod BPB div 8)) (unat k mod 8)"

section \<open>In-memory inodes\<close>

text \<open>
  Modelled from the spec: \<open>struct inode\<close> is declared in a header that is not among the
  sources. Its fields are those fs.c uses: device, inode number, reference count, the
  sleep-lock, the validity flag and the copy of the on-disk fields. \<open>locked\<close> stands for
  the sleep-lock as the calling process sees it: true while the caller holds it.
  \<open>addrs\<close> is the array \<open>uint addrs[NDIRECT+2]\<close>.
\<close>

record inode =
  dev :: u32
  inum :: u32
  ref :: u32
  locked :: bool
  valid :: u32
  type :: u16
  major :: u16
  minor :: u16
  nlink :: u16
  size_i :: u32
  addrs :: "u32 list"

text \<open>
  Modelled from the spec: the type tags come from a header that is not among the sources;
  the spec fixes only that 0 marks a free inode and that directory, file and device are
  distinct nonzero tags. \<open>NDEV\<close> bounds the device table.
\<close>

definition T_DIR :: u16 where "T_DIR = 1"
definition T_FILE :: u16 where "T_FILE = 2"
definition T_DEV :: u16 where "T_DEV = 3"
definition NDEV :: int where "NDEV = 10"

text \<open>
  \<open>iupdate\<close>: the fields of the inode are stored into its \<open>struct dinode\<close> slot of the
  inode block, which is then logged.
\<close>

definition dinode_off :: "u32 \<Rightarrow> nat" where
  "dinode_off i = (unat i mod IPB) * DINODE_SIZE"

definition wr_addrs :: "block \<Rightarrow> nat \<Rightarrow> u32 list \<Rightarrow> block" where
  "wr_addrs d p as = fold (\<lambda>i d. wr_u32 d (p + 4 * i) (as ! i)) [0..<NDIRECT + 2] d"

definition rd_addrs :: "block \<Rightarrow> nat \<Rightarrow> u32 list" where
  "rd_addrs d p = map (\<lambda>i. rd_u32 d (p + 4 * i)) [0..<NDIRECT + 2]"

definition iupdate :: "dstate \<Rightarrow> inode \<Rightarrow> dstate" where
  "iupdate s ip =
     (let bp = IBLOCK (inum ip) (sb s);
          p = dinode_off (inum ip);
          d0 = bread s (dev ip) bp;
          d1 = wr_u16 d0 p (type ip);
          d2 = wr_u16 d1 (p + 2) (major ip);
          d3 = wr_u16 d2 (p + 4) (minor ip);
          d4 = wr_u16 d3 (p + 6) (nlink ip);
          d5 = wr_u32 d4 (p + 8) (size_i ip);
          d6 = wr_addrs d5 (p + 12) (addrs ip)
      in log_write (buf_set s (dev ip) bp d6) (dev ip) bp)"

section \<open>Block address translation\<close>

text \<open>
  \<open>bmap\<close> repeats one step for a slot of the inode's address table,
  \<open>if((addr = ip->addrs[i]) == 0) ip->addrs[i] = addr = balloc(ip->dev);\<close>
  and one step for an entry of an index block that has been fetched,
  \<open>if((addr = a[i]) == 0){ a[i] = addr = balloc(ip->dev); log_write(bp); }\<close>.
  The pointer \<open>a\<close> aliases the buffer, so the store goes to the block as it is after
  \<open>balloc\<close> returned.
\<close>

definition bmap_slot :: "dstate \<Rightarrow> inode \<Rightarrow> nat \<Rightarrow> error + (u32 \<times> dstate \<times> inode)" where
  "bmap_slot s ip i =
     (if addrs ip ! i = 0 then
        (case balloc s (dev ip) of
           Inl e \<Rightarrow> Inl e
         | Inr (addr, s1) \<Rightarrow> Inr (addr, s1, ip\<lparr>addrs := (addrs ip)[i := addr]\<rparr>))
      else Inr (addrs ip ! i, s, ip))"

definition bmap_entry :: "dstate \<Rightarrow> u32 \<Rightarrow> u32 \<Rightarrow> nat \<Rightarrow> error + (u32 \<times> dstate)" where
  "bmap_entry s dv blk i =
     (if rd_u32 (bread s dv blk) (4 * i) = 0 then
        (case balloc s dv of
           Inl e \<Rightarrow> Inl e
         | Inr (addr, s1) \<Rightarrow>
             Inr (addr, log_write (buf_set s1 dv blk (wr_u32 (bread s1 dv blk) (4 * i) addr)) dv blk))
      else Inr (rd_u32 (bread s dv blk) (4 * i), s))"

definition bmap :: "dstate \<Rightarrow> inode \<Rightarrow> u32 \<Rightarrow> error + (u32 \<times> dstate \<times> inode)" where
  "bmap s ip bn =
     (if unat bn < NDIRECT then bmap_slot s ip (unat bn)
      else
        let bn1 = bn - of_nat NDIRECT in
        if unat bn1 < NINDIRECT then
          (case bmap_slot s ip NDIRECT of
             Inl e \<Rightarrow> Inl e
           | Inr (addr, s1, ip1) \<Rightarrow>
               (case bmap_entry s1 (dev ip) addr (unat bn1) of
                  Inl e \<Rightarrow> Inl e
                | Inr (addr1, s2) \<Rightarrow> Inr (addr1, s2, ip1)))
        else
          let bn2 = bn1 - of_nat NINDIRECT in
          if unat bn2 < NINDIRECT * NINDIRECT then
            (case bmap_slot s ip (NDIRECT + 1) of
               Inl e \<Rightarrow> Inl e
             | Inr (addr, s1, ip1) \<Rightarrow>
                 let posBSI = unat bn2 mod NINDIRECT;
                     bn3 = unat bn2 div NINDIRECT
                 in (case bmap_entry s1 (dev ip) addr bn3 of
                       Inl e \<Rightarrow> Inl e
                     | Inr (addr1, s2) \<Rightarrow>
                         (case bmap_entry s2 (dev ip) addr1 posBSI of
                            Inl e \<Rightarrow> Inl e
                          | Inr (addr2, s3) \<Rightarrow> Inr (addr2, s3, ip1))))
          else Inl (Panic ''bmap: out of range''))"

section \<open>Truncation\<close>

text \<open>
  The loop over the direct slots: \<open>for(i = 0; i < NDIRECT; i++)\<close>, run over the list of
  its indices.
\<close>

fun itrunc_direct :: "dstate \<Rightarrow> inode \<Rightarrow> nat list \<Rightarrow> error + (dstate \<times> inode)" where
  "itrunc_direct s ip [] = Inr (s, ip)"
| "itrunc_direct s ip (i # is) =
     (if addrs ip ! i \<noteq> 0 then
        (case bfree s (dev ip) (addrs ip ! i) of
           Inl e \<Rightarrow> Inl e
         | Inr s1 \<Rightarrow> itrunc_direct s1 (ip\<lparr>addrs := (addrs ip)[i := 0]\<rparr>) is)
      else itrunc_direct s ip is)"

text \<open>
  The loop \<open>for(j = 0; j < NINDIRECT; j++) if(a[j]) bfree(ip->dev, a[j]);\<close> over the
  entries of the fetched index block \<open>blk\<close>; it occurs for the single-indirect block and
  for every inner block of the double-indirect one. \<open>a\<close> points into the buffer, so each
  entry is read from the block as it is at that moment.
\<close>

fun itrunc_entries :: "dstate \<Rightarrow> u32 \<Rightarrow> u32 \<Rightarrow> nat list \<Rightarrow> error + dstate" where
  "itrunc_entries s dv blk [] = Inr s"
| "itrunc_entries s dv blk (j # js) =
     (if rd_u32 (bread s dv blk) (4 * j) \<noteq> 0 then
        (case bfree s dv (rd_u32 (bread s dv blk) (4 * j)) of
           Inl e \<Rightarrow> Inl e
         | Inr s1 \<Rightarrow> itrunc_entries s1 dv blk js)
      else itrunc_entries s dv blk js)"

text \<open>
  The loop over the entries of the double-indirect block \<open>blk\<close>: for every nonzero entry
  the inner block is fetched, its entries are freed, then the inner block itself.
\<close>

fun itrunc_outer :: "dstate \<Rightarrow> u32 \<Rightarrow> u32 \<Rightarrow> nat list \<Rightarrow> error + dstate" where
  "itrunc_outer s dv blk [] = Inr s"
| "itrunc_outer s dv blk (i # is) =
     (if rd_u32 (bread s dv blk) (4 * i) \<noteq> 0 then
        (case itrunc_entries s dv (rd_u32 (bread s dv blk) (4 * i)) [0..<NINDIRECT] of
           Inl e \<Rightarrow> Inl e
         | Inr s1 \<Rightarrow>
             (case bfree s1 dv (rd_u32 (bread s1 dv blk) (4 * i)) of
                Inl e \<Rightarrow> Inl e
              | Inr s2 \<Rightarrow> itrunc_outer s2 dv blk is))
      else itrunc_outer s dv blk is)"

definition itrunc :: "dstate \<Rightarrow> inode \<Rightarrow> error + (dstate \<times> inode)" where
  "itrunc s ip =
     (case itrunc_direct s ip [0..<NDIRECT] of
        Inl e \<Rightarrow> Inl e
      | Inr (s1, ip1) \<Rightarrow>
          (case (if addrs ip1 ! NDIRECT \<noteq> 0 then
                   (case itrunc_entries s1 (dev ip1) (addrs ip1 ! NDIRECT) [0..<NINDIRECT] of
                      Inl e \<Rightarrow> Inl e
                    | Inr s2 \<Rightarrow>
                        (case bfree s2 (dev ip1) (addrs ip1 ! NDIRECT) of
                           Inl e \<Rightarrow> Inl e
                         | Inr s3 \<Rightarrow> Inr (s3, ip1\<lparr>addrs := (addrs ip1)[NDIRECT := 0]\<rparr>)))
                 else Inr (s1, ip1)) of
             Inl e \<Rightarrow> Inl e
           | Inr (s3, ip3) \<Rightarrow>
               (case (if addrs ip3 ! (NDIRECT + 1) \<noteq> 0 then
                        (case itrunc_outer s3 (dev ip3) (addrs ip3 ! (NDIRECT + 1)) [0..<NINDIRECT] of
                           Inl e \<Rightarrow> Inl e
                         | Inr s4 \<Rightarrow>
                             (case bfree s4 (dev ip3) (addrs ip3 ! (NDIRECT + 1)) of
                                Inl e \<Rightarrow> Inl e
                              | Inr s5 \<Rightarrow>
                                  Inr (s5, ip3\<lparr>addrs := (addrs ip3)[NDIRECT + 1 := 0]\<rparr>)))
                      else Inr (s3, ip3)) of
                  Inl e \<Rightarrow> Inl e
                | Inr (s5, ip5) \<Rightarrow>
                    let ip6 = ip5\<lparr>size_i := 0\<rparr> in Inr (iupdate s5 ip6, ip6))))"

section \<open>Reading and writing content\<close>

text \<open>
  Modelled from the spec: the device table \<open>devsw\<close> is declared outside the sources. An
  entry holds the optional read and write callbacks of a device major number; a callback
  gets the inode, the caller's buffer and the length, and gives back its return value
  (and, for a read, the buffer as it left it). The table is a parameter of \<open>readi\<close> and
  \<open>writei\<close>.
\<close>

type_synonym membuf = "nat \<Rightarrow> u8"

record devsw_entry =
  dread :: "(inode \<Rightarrow> membuf \<Rightarrow> u32 \<Rightarrow> int \<times> membuf) option"
  dwrite :: "(inode \<Rightarrow> membuf \<Rightarrow> u32 \<Rightarrow> int) option"

text \<open>
  The copy loop of \<open>readi\<close>. \<open>dst\<close> is the caller's buffer from its start; the source
  advances the pointer by \<open>m\<close> together with \<open>tot\<close>, so the bytes of one step go to the
  indices from \<open>tot\<close> on.
\<close>

function readi_loop ::
  "dstate \<Rightarrow> inode \<Rightarrow> membuf \<Rightarrow> u32 \<Rightarrow> u32 \<Rightarrow> u32 \<Rightarrow> error + (dstate \<times> inode \<times> membuf)" where
  "readi_loop s ip dst off n tot =
     (if tot < n then
        (case bmap s ip (off div of_nat BSIZE) of
           Inl e \<Rightarrow> Inl e
         | Inr (a, s1, ip1) \<Rightarrow>
             let d = bread s1 (dev ip1) a;
                 m = min (n - tot) (of_nat BSIZE - off mod of_nat BSIZE);
                 dst1 = (\<lambda>k. if unat tot \<le> k \<and> k < unat tot + unat m
                              then d (unat (off mod of_nat BSIZE) + (k - unat tot)) else dst k)
             in readi_loop s1 ip1 dst1 (off + m) n (tot + m))
      else Inr (s, ip, dst))"
  by pat_completeness auto
termination
proof (relation "measure (\<lambda>(s, ip, dst, off, n, tot). unat n - unat tot)", goal_cases)
  case 1
  show ?case by simp
next
  case (2 s ip dst off n tot x2 a y s1 ip1 d m dst1)
  have lt: "unat tot < unat n"
    using 2(1) by (simp add: word_less_nat_alt)
  have d1: "unat (n - tot) = unat n - unat tot"
    using lt by (simp add: unat_sub word_le_nat_alt)
  have le: "off mod 512 \<le> 512"
    by (simp add: word_le_nat_alt unat_mod)
  have d2: "unat (512 - off mod 512) = 512 - unat off mod 512"
    using unat_sub [OF le] by (simp add: unat_mod)
  have um: "unat m = min (unat n - unat tot) (512 - unat off mod 512)"
    unfolding 2(6) BSIZE_def by (simp add: min_def word_le_nat_alt d1 d2)
  have "unat n < 2 ^ 32"
    using unsigned_less [of n] by simp
  then have "unat (tot + m) = unat tot + unat m"
    using um lt by (simp add: unat_add_lem [THEN iffD1])
  moreover have "0 < unat m"
    using um lt by simp
  ultimately show ?case
    using lt by simp
qed

declare readi_loop.simps [simp del]

definition readi ::
  "(nat \<Rightarrow> devsw_entry) \<Rightarrow> dstate \<Rightarrow> inode \<Rightarrow> membuf \<Rightarrow> u32 \<Rightarrow> u32
     \<Rightarrow> error + (int \<times> dstate \<times> inode \<times> membuf)" where
  "readi devsw s ip dst off n =
     (if type ip = T_DEV then
        (if sint (major ip) < 0 \<or> sint (major ip) \<ge> NDEV then Inr (- 1, s, ip, dst)
         else (case dread (devsw (nat (sint (major ip)))) of
                 None \<Rightarrow> Inr (- 1, s, ip, dst)
               | Some f \<Rightarrow> Inr (fst (f ip dst n), s, ip, snd (f ip dst n))))
      else if off > size_i ip \<or> off + n < off then Inr (- 1, s, ip, dst)
      else
        let n1 = (if off + n > size_i ip then size_i ip - off else n) in
        (case readi_loop s ip dst off n1 0 of
           Inl e \<Rightarrow> Inl e
         | Inr (s1, ip1, dst1) \<Rightarrow> Inr (sint n1, s1, ip1, dst1)))"

text \<open>
  The copy loop of \<open>writei\<close>; it also gives back the final value of \<open>off\<close>, which the
  code after the loop compares with the size.
\<close>

function writei_loop ::
  "dstate \<Rightarrow> inode \<Rightarrow> membuf \<Rightarrow> u32 \<Rightarrow> u32 \<Rightarrow> u32 \<Rightarrow> error + (dstate \<times> inode \<times> u32)" where
  "writei_loop s ip src off n tot =
     (if tot < n then
        (case bmap s ip (off div of_nat BSIZE) of
           Inl e \<Rightarrow> Inl e
         | Inr (a, s1, ip1) \<Rightarrow>
             let d = bread s1 (dev ip1) a;
                 m = min (n - tot) (of_nat BSIZE - off mod of_nat BSIZE);
                 p = unat (off mod of_nat BSIZE);
                 d1 = (\<lambda>k. if p \<le> k \<and> k < p + unat m then src (unat tot + (k - p)) else d k);
                 s2 = log_write (buf_set s1 (dev ip1) a d1) (dev ip1) a
             in writei_loop s2 ip1 src (off + m) n (tot + m))
      else Inr (s, ip, off))"
  by pat_completeness auto
termination
proof (relation "measure (\<lambda>(s, ip, src, off, n, tot). unat n - unat tot)", goal_cases)
  case 1
  show ?case by simp
next
  case (2 s ip src off n tot x2 a y s1 ip1 d m)
  have lt: "unat tot < unat n"
    using 2(1) by (simp add: word_less_nat_alt)
  have d1: "unat (n - tot) = unat n - unat tot"
    using lt by (simp add: unat_sub word_le_nat_alt)
  have le: "off mod 512 \<le> 512"
    by (simp add: word_le_nat_alt unat_mod)
  have d2: "unat (512 - off mod 512) = 512 - unat off mod 512"
    using unat_sub [OF le] by (simp add: unat_mod)
  have um: "unat m = min (unat n - unat tot) (512 - unat off mod 512)"
    unfolding 2(6) BSIZE_def by (simp add: min_def word_le_nat_alt d1 d2)
  have "unat n < 2 ^ 32"
    using unsigned_less [of n] by simp
  then have "unat (tot + m) = unat tot + unat m"
    using um lt by (simp add: unat_add_lem [THEN iffD1])
  moreover have "0 < unat m"
    using um lt by simp
  ultimately show ?case
    using lt by simp
qed

declare writei_loop.simps [simp del]

definition writei ::
  "(nat \<Rightarrow> devsw_entry) \<Rightarrow> dstate \<Rightarrow> inode \<Rightarrow> membuf \<Rightarrow> u32 \<Rightarrow> u32
     \<Rightarrow> error + (int \<times> dstate \<times> inode)" where
  "writei devsw s ip src off n =
     (if type ip = T_DEV then
        (if sint (major ip) < 0 \<or> sint (major ip) \<ge> NDEV then Inr (- 1, s, ip)
         else (case dwrite (devsw (nat (sint (major ip)))) of
                 None \<Rightarrow> Inr (- 1, s, ip)
               | Some f \<Rightarrow> Inr (f ip src n, s, ip)))
      else if off > size_i ip \<or> off + n < off then Inr (- 1, s, ip)
      else if off + n > of_nat (MAXFILE * BSIZE) then Inr (- 1, s, ip)
      else
        (case writei_loop s ip src off n 0 of
           Inl e \<Rightarrow> Inl e
         | Inr (s1, ip1, off1) \<Rightarrow>
             if n > 0 \<and> off1 > size_i ip1
             then let ip2 = ip1\<lparr>size_i := off1\<rparr> in Inr (sint n, iupdate s1 ip2, ip2)
             else Inr (sint n, s1, ip1)))"


section \<open>Inode cache\<close>

text \<open>
  The pool \<open>icache.inode[NINODE]\<close> is the list \<open>icache\<close>; \<open>NINODE\<close> is its length, and a
  \<open>struct inode *\<close> is an index into it. \<open>cwd\<close> is the slot of \<open>myproc()->cwd\<close>. The
  spin-lock \<open>icache.lock\<close> belongs to the concurrency model and is not represented.
\<close>

record kstate =
  ds :: dstate
  icache :: "inode list"
  cwd :: nat

datatype scan_result = Found nat | NotFound "nat option"

text \<open>The scan of \<open>iget\<close>; \<open>emp\<close> (the variable \<open>empty\<close>) is the first slot with \<open>ref == 0\<close> seen so far.\<close>

fun iget_scan :: "inode list \<Rightarrow> u32 \<Rightarrow> u32 \<Rightarrow> nat list \<Rightarrow> nat option \<Rightarrow> scan_result" where
  "iget_scan ic dv inr [] emp = NotFound emp"
| "iget_scan ic dv inr (i # is) emp =
     (if 0 < sint (ref (ic ! i)) \<and> dev (ic ! i) = dv \<and> inum (ic ! i) = inr then Found i
      else iget_scan ic dv inr is (if emp = None \<and> ref (ic ! i) = 0 then Some i else emp))"

definition iget :: "kstate \<Rightarrow> u32 \<Rightarrow> u32 \<Rightarrow> error + (nat \<times> kstate)" where
  "iget ks dv inr =
     (case iget_scan (icache ks) dv inr [0..<length (icache ks)] None of
        Found i \<Rightarrow> Inr (i, ks\<lparr>icache := (icache ks)[i := (icache ks ! i)\<lparr>ref := ref (icache ks ! i) + 1\<rparr>]\<rparr>)
      | NotFound None \<Rightarrow> Inl (Panic ''iget: no inodes'')
      | NotFound (Some i) \<Rightarrow>
          Inr (i, ks\<lparr>icache := (icache ks)[i := (icache ks ! i)\<lparr>dev := dv, inum := inr, ref := 1, valid := 0\<rparr>]\<rparr>))"

definition idup :: "kstate \<Rightarrow> nat \<Rightarrow> nat \<times> kstate" where
  "idup ks i = (i, ks\<lparr>icache := (icache ks)[i := (icache ks ! i)\<lparr>ref := ref (icache ks ! i) + 1\<rparr>]\<rparr>)"

text \<open>
  Modelled from the spec: \<open>acquiresleep\<close> and \<open>releasesleep\<close> come from the sleep-lock
  module, which is not among the sources. The lock of a handle is acquired (the caller
  may suspend until another holder releases it) and released; a caller that already holds
  the lock can never get it.
\<close>

definition acquiresleep :: "inode \<Rightarrow> error + inode" where
  "acquiresleep ip = (if locked ip then Inl Deadlock else Inr (ip\<lparr>locked := True\<rparr>))"

definition releasesleep :: "inode \<Rightarrow> inode" where
  "releasesleep ip = ip\<lparr>locked := False\<rparr>"

text \<open>\<open>ilock\<close>; the handle is a slot of the pool, so the null test of the source is moot.\<close>

definition ilock :: "kstate \<Rightarrow> nat \<Rightarrow> error + kstate" where
  "ilock ks i =
     (let ip = icache ks ! i in
      if sint (ref ip) < 1 then Inl (Panic ''ilock'')
      else (case acquiresleep ip of
              Inl e \<Rightarrow> Inl e
            | Inr ip1 \<Rightarrow>
                if valid ip1 = 0 then
                  (let d = bread (ds ks) (dev ip1) (IBLOCK (inum ip1) (sb (ds ks)));
                       p = dinode_off (inum ip1);
                       ip2 = ip1\<lparr>type := rd_u16 d p, major := rd_u16 d (p + 2),
                                 minor := rd_u16 d (p + 4), nlink := rd_u16 d (p + 6),
                                 size_i := rd_u32 d (p + 8), addrs := rd_addrs d (p + 12),
                                 valid := 1\<rparr>
                   in if type ip2 = 0 then Inl (Panic ''ilock: no type'')
                      else Inr (ks\<lparr>icache := (icache ks)[i := ip2]\<rparr>))
                else Inr (ks\<lparr>icache := (icache ks)[i := ip1]\<rparr>)))"

definition iunlock :: "kstate \<Rightarrow> nat \<Rightarrow> error + kstate" where
  "iunlock ks i =
     (let ip = icache ks ! i in
      if \<not> locked ip \<or> sint (ref ip) < 1 then Inl (Panic ''iunlock'')
      else Inr (ks\<lparr>icache := (icache ks)[i := releasesleep ip]\<rparr>))"

definition iput :: "kstate \<Rightarrow> nat \<Rightarrow> error + kstate" where
  "iput ks i =
     (case acquiresleep (icache ks ! i) of
        Inl e \<Rightarrow> Inl e
      | Inr ip1 \<Rightarrow>
          (case (if valid ip1 \<noteq> 0 \<and> nlink ip1 = 0 \<and> ref ip1 = 1 then
                   (case itrunc (ds ks) ip1 of
                      Inl e \<Rightarrow> Inl e
                    | Inr (s1, ip2) \<Rightarrow>
                        let ip3 = ip2\<lparr>type := 0\<rparr> in Inr (iupdate s1 ip3, ip3\<lparr>valid := 0\<rparr>))
                 else Inr (ds ks, ip1)) of
             Inl e \<Rightarrow> Inl e
           | Inr (s2, ip4) \<Rightarrow>
               let ip5 = releasesleep ip4
               in Inr (ks\<lparr>ds := s2, icache := (icache ks)[i := ip5\<lparr>ref := ref ip5 - 1\<rparr>]\<rparr>)))"

definition iunlockput :: "kstate \<Rightarrow> nat \<Rightarrow> error + kstate" where
  "iunlockput ks i = (case iunlock ks i of Inl e \<Rightarrow> Inl e | Inr ks1 \<Rightarrow> iput ks1 i)"

section \<open>Directories\<close>

text \<open>
  A \<open>char *\<close> argument that names a directory entry is the memory it points to, read by
  index. \<open>strncmp\<close> and \<open>strncpy\<close> are the C library routines of the kernel: the first
  compares at most \<open>n\<close> bytes and stops at a NUL, the second copies at most \<open>n\<close> bytes
  and pads with NUL up to \<open>n\<close>.
\<close>

fun strncmp :: "membuf \<Rightarrow> membuf \<Rightarrow> nat \<Rightarrow> int" where
  "strncmp p q 0 = 0"
| "strncmp p q (Suc n) =
     (if p 0 \<noteq> 0 \<and> p 0 = q 0 then strncmp (\<lambda>i. p (Suc i)) (\<lambda>i. q (Suc i)) n
      else int (unat (p 0)) - int (unat (q 0)))"

fun strncpy :: "membuf \<Rightarrow> nat \<Rightarrow> u8 list" where
  "strncpy t 0 = []"
| "strncpy t (Suc n) =
     (if t 0 = 0 then replicate (Suc n) 0 else t 0 # strncpy (\<lambda>i. t (Suc i)) n)"

definition namecmp :: "membuf \<Rightarrow> membuf \<Rightarrow> int" where
  "namecmp s t = strncmp s t DIRSIZ"

text \<open>\<open>struct dirent\<close>: a \<open>ushort\<close> inode number, then \<open>DIRSIZ\<close> name bytes.\<close>

definition DIRENT_SIZE :: nat where "DIRENT_SIZE = 2 + DIRSIZ"

definition de_inum :: "membuf \<Rightarrow> u16" where "de_inum de = rd_u16 de 0"
definition de_name :: "membuf \<Rightarrow> membuf" where "de_name de = (\<lambda>i. de (2 + i))"

text \<open>
  \<open>dirlookup\<close>, from offset \<open>off\<close> on. The source tests the type once, before the loop;
  \<open>readi\<close> never changes the type, so the test is repeated here at every step with the
  same outcome, and it is what bounds the loop: a directory is not a device, and a read
  of a whole record from a non-device inode at \<open>off\<close> succeeds only if \<open>off + 16\<close> does
  not wrap. The result is the slot of the inode found, with the offset stored through
  \<open>poff\<close>.
\<close>

function dirlookup_from ::
  "(nat \<Rightarrow> devsw_entry) \<Rightarrow> kstate \<Rightarrow> nat \<Rightarrow> membuf \<Rightarrow> membuf \<Rightarrow> u32
     \<Rightarrow> error + ((nat \<times> u32) option \<times> kstate)" where
  "dirlookup_from devsw ks dp name de off =
     (if type (icache ks ! dp) \<noteq> T_DIR then Inl (Panic ''dirlookup not DIR'')
      else if off < size_i (icache ks ! dp) then
        (case readi devsw (ds ks) (icache ks ! dp) de off (of_nat DIRENT_SIZE) of
           Inl e \<Rightarrow> Inl e
         | Inr (r, s1, ip1, de1) \<Rightarrow>
             if r \<noteq> int DIRENT_SIZE then Inl (Panic ''dirlookup read'')
             else
               let ks1 = ks\<lparr>ds := s1, icache := (icache ks)[dp := ip1]\<rparr> in
               if de_inum de1 = 0 then
                 dirlookup_from devsw ks1 dp name de1 (off + of_nat DIRENT_SIZE)
               else if namecmp name (de_name de1) = 0 then
                 (case iget ks1 (dev ip1) (ucast (de_inum de1)) of
                    Inl e \<Rightarrow> Inl e
                  | Inr (i, ks2) \<Rightarrow> Inr (Some (i, off), ks2))
               else dirlookup_from devsw ks1 dp name de1 (off + of_nat DIRENT_SIZE))
      else Inr (None, ks))"
  by pat_completeness auto
termination
proof (relation "measure (\<lambda>(devsw, ks, dp, name, de, off). 2 ^ 32 - unat off)", goal_cases)
  case 1
  show ?case by simp
next
  case (2 devsw ks dp name de off x2 r y s1 z ip1 de1 ks1)
  have "type (icache ks ! dp) \<noteq> T_DEV"
    using 2(1) by (simp add: T_DIR_def T_DEV_def)
  then have "off \<le> off + 16"
    using 2 by (auto simp: readi_def DIRENT_SIZE_def DIRSIZ_def Let_def split: if_splits sum.splits)
  then have "unat (off + 16) = unat off + 16"
    by (simp add: no_olen_add_nat unat_add_lem [THEN iffD1])
  moreover have "unat (off + 16) < 2 ^ 32"
    using unsigned_less [of "off + 16"] by simp
  ultimately show ?case
    by (simp add: DIRENT_SIZE_def DIRSIZ_def)
next
  case (3 devsw ks dp name de off x2 r y s1 z ip1 de1 ks1)
  have "type (icache ks ! dp) \<noteq> T_DEV"
    using 3(1) by (simp add: T_DIR_def T_DEV_def)
  then have "off \<le> off + 16"
    using 3 by (auto simp: readi_def DIRENT_SIZE_def DIRSIZ_def Let_def split: if_splits sum.splits)
  then have "unat (off + 16) = unat off + 16"
    by (simp add: no_olen_add_nat unat_add_lem [THEN iffD1])
  moreover have "unat (off + 16) < 2 ^ 32"
    using unsigned_less [of "off + 16"] by simp
  ultimately show ?case
    by (simp add: DIRENT_SIZE_def DIRSIZ_def)
qed

declare dirlookup_from.simps [simp del]

text \<open>The local \<open>de\<close> of the source is uninitialised; every read fills it before use.\<close>

definition dirlookup ::
  "(nat \<Rightarrow> devsw_entry) \<Rightarrow> kstate \<Rightarrow> nat \<Rightarrow> membuf \<Rightarrow> error + ((nat \<times> u32) option \<times> kstate)" where
  "dirlookup devsw ks dp name = dirlookup_from devsw ks dp name (\<lambda>_. 0) 0"

text \<open>
  The scan of \<open>dirlink\<close> for an empty record. \<open>off\<close> is an \<open>int\<close> here: it is compared
  with the size as an unsigned value, and the step \<open>off += sizeof(de)\<close> must stay below
  \<open>2^31\<close>.
\<close>

function dirlink_scan ::
  "(nat \<Rightarrow> devsw_entry) \<Rightarrow> kstate \<Rightarrow> nat \<Rightarrow> membuf \<Rightarrow> nat \<Rightarrow> error + (nat \<times> kstate)" where
  "dirlink_scan devsw ks dp de off =
     (if off < unat (size_i (icache ks ! dp)) then
        (case readi devsw (ds ks) (icache ks ! dp) de (of_nat off) (of_nat DIRENT_SIZE) of
           Inl e \<Rightarrow> Inl e
         | Inr (r, s1, ip1, de1) \<Rightarrow>
             if r \<noteq> int DIRENT_SIZE then Inl (Panic ''dirlink read'')
             else
               let ks1 = ks\<lparr>ds := s1, icache := (icache ks)[dp := ip1]\<rparr> in
               if de_inum de1 = 0 then Inr (off, ks1)
               else if off + DIRENT_SIZE < 2 ^ 31 then dirlink_scan devsw ks1 dp de1 (off + DIRENT_SIZE)
               else Inl IntOverflow)
      else Inr (off, ks))"
  by pat_completeness auto
termination
  by (relation "measure (\<lambda>(devsw, ks, dp, de, off). 2 ^ 31 - off)")
    (auto simp: DIRENT_SIZE_def DIRSIZ_def)

declare dirlink_scan.simps [simp del]

text \<open>The record that \<open>dirlink\<close> builds: \<open>strncpy(de.name, name, DIRSIZ); de.inum = inum\<close>.\<close>

definition mk_dirent :: "membuf \<Rightarrow> u32 \<Rightarrow> membuf" where
  "mk_dirent name inr =
     wr_u16 (\<lambda>i. if 2 \<le> i \<and> i < DIRENT_SIZE then strncpy name DIRSIZ ! (i - 2) else 0) 0 (ucast inr)"

definition dirlink ::
  "(nat \<Rightarrow> devsw_entry) \<Rightarrow> kstate \<Rightarrow> nat \<Rightarrow> membuf \<Rightarrow> u32 \<Rightarrow> error + (int \<times> kstate)" where
  "dirlink devsw ks dp name inr =
     (case dirlookup devsw ks dp name of
        Inl e \<Rightarrow> Inl e
      | Inr (Some (ip, poff), ks1) \<Rightarrow>
          (case iput ks1 ip of Inl e \<Rightarrow> Inl e | Inr ks2 \<Rightarrow> Inr (- 1, ks2))
      | Inr (None, ks1) \<Rightarrow>
          (case dirlink_scan devsw ks1 dp (\<lambda>_. 0) 0 of
             Inl e \<Rightarrow> Inl e
           | Inr (off, ks2) \<Rightarrow>
               (case writei devsw (ds ks2) (icache ks2 ! dp) (mk_dirent name inr)
                       (of_nat off) (of_nat DIRENT_SIZE) of
                  Inl e \<Rightarrow> Inl e
                | Inr (r, s3, ip3) \<Rightarrow>
                    if r \<noteq> int DIRENT_SIZE then Inl (Panic ''dirlink'')
                    else Inr (0, ks2\<lparr>ds := s3, icache := (icache ks2)[dp := ip3]\<rparr>))))"

section \<open>Paths\<close>

text \<open>
  A path is the list of the bytes of the C string before its terminating NUL; \<open>peek\<close> is
  \<open>*path\<close>, which is NUL at the end of the list.
\<close>

definition peek :: "u8 list \<Rightarrow> u8" where
  "peek p = (case p of [] \<Rightarrow> 0 | c # _ \<Rightarrow> c)"

definition SLASH :: u8 where "SLASH = 0x2F"

fun skip_slashes :: "u8 list \<Rightarrow> u8 list" where
  "skip_slashes [] = []"
| "skip_slashes (c # p) = (if c = SLASH then skip_slashes p else c # p)"

fun elem_len :: "u8 list \<Rightarrow> nat" where
  "elem_len [] = 0"
| "elem_len (c # p) = (if c \<noteq> SLASH \<and> c \<noteq> 0 then Suc (elem_len p) else 0)"

definition skipelem :: "u8 list \<Rightarrow> membuf \<Rightarrow> (u8 list \<times> membuf) option" where
  "skipelem path name =
     (let p1 = skip_slashes path in
      if peek p1 = 0 then None
      else
        let len = elem_len p1;
            name1 = (if len \<ge> DIRSIZ then (\<lambda>i. if i < DIRSIZ then p1 ! i else name i)
                     else (\<lambda>i. if i < len then p1 ! i else if i = len then 0 else name i))
        in Some (skip_slashes (drop len p1), name1))"

text \<open>
  Modelled from the spec: \<open>ROOTDEV\<close> is a configuration constant declared outside the
  sources; it is the device that holds the root inode.
\<close>

definition ROOTDEV :: u32 where "ROOTDEV = 1"

lemma length_skip_slashes: "length (skip_slashes p) \<le> length p"
  by (induction p) auto

lemma elem_len_pos: "peek p \<noteq> 0 \<Longrightarrow> peek p \<noteq> SLASH \<Longrightarrow> 0 < elem_len p"
  by (cases p) (auto simp: peek_def)

lemma peek_skip_slashes: "peek (skip_slashes p) \<noteq> SLASH"
  by (induction p) (auto simp: peek_def SLASH_def)

lemma elem_len_le: "elem_len p \<le> length p"
  by (induction p) auto

lemma skipelem_shorter:
  assumes "skipelem path name = Some (path1, name1)"
  shows "length path1 < length path"
proof -
  let ?p1 = "skip_slashes path"
  from assms have nz: "peek ?p1 \<noteq> 0"
    and p1: "path1 = skip_slashes (drop (elem_len ?p1) ?p1)"
    by (auto simp: skipelem_def Let_def split: if_splits)
  have "0 < elem_len ?p1"
    using nz peek_skip_slashes by (rule elem_len_pos)
  moreover have "elem_len ?p1 \<le> length ?p1"
    by (rule elem_len_le)
  moreover have "length path1 \<le> length (drop (elem_len ?p1) ?p1)"
    unfolding p1 by (rule length_skip_slashes)
  moreover have "length ?p1 \<le> length path"
    by (rule length_skip_slashes)
  ultimately show ?thesis by simp
qed

text \<open>The loop of \<open>namex\<close>, entered with the starting inode \<open>ip\<close>.\<close>

function namex_loop ::
  "(nat \<Rightarrow> devsw_entry) \<Rightarrow> kstate \<Rightarrow> nat \<Rightarrow> u8 list \<Rightarrow> bool \<Rightarrow> membuf
     \<Rightarrow> error + (nat option \<times> kstate \<times> membuf)" where
  "namex_loop devsw ks ip path nameiparent name =
     (case skipelem path name of
        None \<Rightarrow>
          if nameiparent then
            (case iput ks ip of Inl e \<Rightarrow> Inl e | Inr ks1 \<Rightarrow> Inr (None, ks1, name))
          else Inr (Some ip, ks, name)
      | Some (path1, name1) \<Rightarrow>
          (case ilock ks ip of
             Inl e \<Rightarrow> Inl e
           | Inr ks1 \<Rightarrow>
               if type (icache ks1 ! ip) \<noteq> T_DIR then
                 (case iunlockput ks1 ip of Inl e \<Rightarrow> Inl e | Inr ks2 \<Rightarrow> Inr (None, ks2, name1))
               else if nameiparent \<and> peek path1 = 0 then
                 (case iunlock ks1 ip of Inl e \<Rightarrow> Inl e | Inr ks2 \<Rightarrow> Inr (Some ip, ks2, name1))
               else
                 (case dirlookup devsw ks1 ip name1 of
                    Inl e \<Rightarrow> Inl e
                  | Inr (None, ks2) \<Rightarrow>
                      (case iunlockput ks2 ip of
                         Inl e \<Rightarrow> Inl e
                       | Inr ks3 \<Rightarrow> Inr (None, ks3, name1))
                  | Inr (Some (next, poff), ks2) \<Rightarrow>
                      (case iunlockput ks2 ip of
                         Inl e \<Rightarrow> Inl e
                       | Inr ks3 \<Rightarrow> namex_loop devsw ks3 next path1 nameiparent name1))))"
  by pat_completeness auto
termination
  by (relation "measure (\<lambda>(devsw, ks, ip, path, nameiparent, name). length path)")
    (auto dest: skipelem_shorter)

declare namex_loop.simps [simp del]

definition namex ::
  "(nat \<Rightarrow> devsw_entry) \<Rightarrow> kstate \<Rightarrow> u8 list \<Rightarrow> bool \<Rightarrow> membuf
     \<Rightarrow> error + (nat option \<times> kstate \<times> membuf)" where
  "namex devsw ks path nameiparent name =
     (case (if peek path = SLASH then iget ks ROOTDEV ROOTINO else Inr (idup ks (cwd ks))) of
        Inl e \<Rightarrow> Inl e
      | Inr (ip, ks1) \<Rightarrow> namex_loop devsw ks1 ip path nameiparent name)"

text \<open>\<open>namei\<close> passes a local, uninitialised name buffer.\<close>

definition namei :: "(nat \<Rightarrow> devsw_entry) \<Rightarrow> kstate \<Rightarrow> u8 list \<Rightarrow> error + (nat option \<times> kstate)" where
  "namei devsw ks path =
     (case namex devsw ks path False (\<lambda>_. 0) of
        Inl e \<Rightarrow> Inl e
      | Inr (r, ks1, name1) \<Rightarrow> Inr (r, ks1))"

definition nameiparent ::
  "(nat \<Rightarrow> devsw_entry) \<Rightarrow> kstate \<Rightarrow> u8 list \<Rightarrow> membuf \<Rightarrow> error + (nat option \<times> kstate \<times> membuf)" where
  "nameiparent devsw ks path name = namex devsw ks path True name"


section \<open>Translation without allocation, file content\<close>

text \<open>
  The translation as the specification words it, without allocation: the entry of index
  block \<open>blk\<close> at \<open>i\<close>, and the address that the three tiers hold for logical block
  \<open>bn\<close>, 0 when a slot or entry on the way is 0 or when \<open>bn\<close> is beyond \<open>MAXFILE\<close>.
\<close>

definition ent :: "dstate \<Rightarrow> u32 \<Rightarrow> u32 \<Rightarrow> nat \<Rightarrow> u32" where
  "ent s dv blk i = rd_u32 (bread s dv blk) (4 * i)"

definition blk_lookup :: "dstate \<Rightarrow> inode \<Rightarrow> nat \<Rightarrow> u32" where
  "blk_lookup s ip bn =
     (if bn < NDIRECT then addrs ip ! bn
      else if bn < NDIRECT + NINDIRECT then
        (if addrs ip ! NDIRECT = 0 then 0
         else ent s (dev ip) (addrs ip ! NDIRECT) (bn - NDIRECT))
      else if bn < MAXFILE then
        (let r = bn - NDIRECT - NINDIRECT;
             outer = r div NINDIRECT;
             inner = r mod NINDIRECT
         in if addrs ip ! (NDIRECT + 1) = 0 then 0
            else if ent s (dev ip) (addrs ip ! (NDIRECT + 1)) outer = 0 then 0
            else ent s (dev ip) (ent s (dev ip) (addrs ip ! (NDIRECT + 1)) outer) inner)
      else 0)"

text \<open>The byte of the file at position \<open>p\<close>: the block that holds it, read at \<open>p mod BSIZE\<close>.\<close>

definition fbyte :: "dstate \<Rightarrow> inode \<Rightarrow> nat \<Rightarrow> u8" where
  "fbyte s ip p = bread s (dev ip) (blk_lookup s ip (p div BSIZE)) (p mod BSIZE)"

text \<open>A slot holds (device, inode number) when it is referenced and both fields agree.\<close>

definition cached :: "inode \<Rightarrow> u32 \<Rightarrow> u32 \<Rightarrow> bool" where
  "cached ip dv inr = (0 < sint (ref ip) \<and> dev ip = dv \<and> inum ip = inr)"

text \<open>The state that \<open>balloc\<close> leaves when it hands out block \<open>k\<close>.\<close>

definition balloc_at :: "dstate \<Rightarrow> u32 \<Rightarrow> u32 \<Rightarrow> dstate" where
  "balloc_at s dv k = balloc_mark s dv (unat k - unat k mod BPB) (unat k mod BPB)"

section \<open>Blocks of one file: cells, ownership, the invariant\<close>

text \<open>
  A cell is a place that holds a block address of the file: a slot of the inode's address
  table, or an entry of one of the file's index blocks. The index blocks are the
  single-indirect block, the double-indirect block and the inner blocks that the
  double-indirect block lists. A cell is live when it holds a nonzero address, and a
  block is owned by the file when a live cell holds its address.
\<close>

datatype cell = Slot nat | Ent u32 nat

definition is_index :: "dstate \<Rightarrow> inode \<Rightarrow> u32 \<Rightarrow> bool" where
  "is_index s ip b =
     (b \<noteq> 0 \<and> (b = addrs ip ! NDIRECT \<or> b = addrs ip ! (NDIRECT + 1)
        \<or> (addrs ip ! (NDIRECT + 1) \<noteq> 0
            \<and> (\<exists>i<NINDIRECT. b = ent s (dev ip) (addrs ip ! (NDIRECT + 1)) i))))"

fun cell_ok :: "dstate \<Rightarrow> inode \<Rightarrow> cell \<Rightarrow> bool" where
  "cell_ok s ip (Slot i) = (i < NDIRECT + 2)"
| "cell_ok s ip (Ent b j) = (is_index s ip b \<and> j < NINDIRECT)"

fun cval :: "dstate \<Rightarrow> inode \<Rightarrow> cell \<Rightarrow> u32" where
  "cval s ip (Slot i) = addrs ip ! i"
| "cval s ip (Ent b j) = ent s (dev ip) b j"

definition live :: "dstate \<Rightarrow> inode \<Rightarrow> cell \<Rightarrow> bool" where
  "live s ip c = (cell_ok s ip c \<and> cval s ip c \<noteq> 0)"

definition owned :: "dstate \<Rightarrow> inode \<Rightarrow> u32 \<Rightarrow> bool" where
  "owned s ip b = (\<exists>c. live s ip c \<and> cval s ip c = b)"

text \<open>
  A block is marked when it lies inside the volume and its bitmap bit is set; a bitmap
  block is a block that holds the bit of some block of the volume.
\<close>

definition marked :: "dstate \<Rightarrow> u32 \<Rightarrow> u32 \<Rightarrow> bool" where
  "marked s dv b = (b < size_sb (sb s) \<and> bused s dv b)"

definition is_bitmap :: "dstate \<Rightarrow> u32 \<Rightarrow> bool" where
  "is_bitmap s b = (\<exists>k. k < size_sb (sb s) \<and> b = BBLOCK k (sb s))"

text \<open>
  The consistency of a file with the volume it lives on: the address table has its
  length; no two live cells hold the same address; every owned block is marked, is not a
  bitmap block and is not the block of the file's on-disk inode; the bitmap blocks, the
  inode block and block 0 are marked; the inode block is not a bitmap block.
\<close>

definition fs_inv :: "dstate \<Rightarrow> inode \<Rightarrow> bool" where
  "fs_inv s ip =
     (length (addrs ip) = NDIRECT + 2
      \<and> (\<forall>c c'. live s ip c \<and> live s ip c' \<and> cval s ip c = cval s ip c' \<longrightarrow> c = c')
      \<and> (\<forall>b. owned s ip b \<longrightarrow>
            marked s (dev ip) b \<and> \<not> is_bitmap s b \<and> b \<noteq> IBLOCK (inum ip) (sb s))
      \<and> (\<forall>m. is_bitmap s m \<longrightarrow> marked s (dev ip) m)
      \<and> marked s (dev ip) (IBLOCK (inum ip) (sb s))
      \<and> \<not> is_bitmap s (IBLOCK (inum ip) (sb s))
      \<and> marked s (dev ip) 0)"

text \<open>
  One state and inode extend another: the superblock and the inode's other fields are the
  same, every live cell is still a cell with the same address, and the blocks that the
  file owned as data are unchanged.
\<close>

definition extends :: "dstate \<Rightarrow> inode \<Rightarrow> dstate \<Rightarrow> inode \<Rightarrow> bool" where
  "extends s ip s' ip' =
     (sb s' = sb s \<and> ip' = ip\<lparr>addrs := addrs ip'\<rparr>
      \<and> (\<forall>c. live s ip c \<longrightarrow> cell_ok s' ip' c \<and> cval s' ip' c = cval s ip c)
      \<and> (\<forall>b. owned s ip b \<and> \<not> is_index s ip b \<longrightarrow> disk s' (dev ip, b) = disk s (dev ip, b)))"

text \<open>
  A block is fresh for the file when the file does not own it, it is a marked block other
  than block 0, a bitmap block or the inode block, and read as an index block it is empty.
\<close>

definition fresh :: "dstate \<Rightarrow> inode \<Rightarrow> u32 \<Rightarrow> bool" where
  "fresh s ip a =
     (\<not> owned s ip a \<and> a \<noteq> 0 \<and> \<not> is_bitmap s a \<and> a \<noteq> IBLOCK (inum ip) (sb s)
      \<and> marked s (dev ip) a \<and> (\<forall>j<NINDIRECT. ent s (dev ip) a j = 0))"

text \<open>The cell that holds the address of logical block \<open>bn\<close>.\<close>

definition term_cell :: "dstate \<Rightarrow> inode \<Rightarrow> nat \<Rightarrow> cell" where
  "term_cell s ip bn =
     (if bn < NDIRECT then Slot bn
      else if bn < NDIRECT + NINDIRECT then Ent (addrs ip ! NDIRECT) (bn - NDIRECT)
      else Ent (ent s (dev ip) (addrs ip ! (NDIRECT + 1)) ((bn - NDIRECT - NINDIRECT) div NINDIRECT))
             ((bn - NDIRECT - NINDIRECT) mod NINDIRECT))"

text \<open>The blocks of the volume whose bitmap bit is clear.\<close>

definition free_blocks :: "dstate \<Rightarrow> u32 \<Rightarrow> u32 set" where
  "free_blocks s dv = {k. k < size_sb (sb s) \<and> \<not> bused s dv k}"

section \<open>Freeing: the state after a free, the blocks released so far\<close>

text \<open>The state that \<open>bfree\<close> leaves when it clears the bit of block \<open>b\<close>.\<close>

definition bclear :: "dstate \<Rightarrow> u32 \<Rightarrow> u32 \<Rightarrow> dstate" where
  "bclear s dv b =
     (let bp = BBLOCK b (sb s); d = bread s dv bp; bi = unat b mod BPB
      in log_write (buf_set s dv bp (d(bi div 8 := d (bi div 8) AND NOT (push_bit (bi mod 8) 1)))) dv bp)"


section \<open>Example states\<close>

text \<open>
  A small volume for the concrete instances below: 16 blocks, the superblock in block 1,
  the inode block 3, the bitmap block 4 with the blocks 0 to 4 marked as used, and an
  empty regular file with inode number 1.
\<close>

definition ex_sb :: superblock where
  "ex_sb = \<lparr>size_sb = 16, nblocks = 11, ninodes = 8, nlog = 1, logstart = 2, inodestart = 3, bmapstart = 4\<rparr>"

definition ex_sbblk :: block where
  "ex_sbblk = (\<lambda>_. 0)(0 := 16, 4 := 11, 8 := 8, 12 := 1, 16 := 2, 20 := 3, 24 := 4)"

definition ex_disk :: "u32 \<times> u32 \<Rightarrow> block" where
  "ex_disk = (\<lambda>_. (\<lambda>_. 0))((1, 1) := ex_sbblk, (1, 4) := (\<lambda>_. 0)(0 := 0x1F))"

definition ex_state :: dstate where
  "ex_state = \<lparr>disk = ex_disk, sb = ex_sb, logw = []\<rparr>"

definition ex_inode :: inode where
  "ex_inode = \<lparr>dev = 1, inum = 1, ref = 1, locked = True, valid = 1, type = T_FILE, major = 0,
     minor = 0, nlink = 1, size_i = 0, addrs = replicate 13 0\<rparr>"

definition ex_devsw :: "nat \<Rightarrow> devsw_entry" where
  "ex_devsw = (\<lambda>_. \<lparr>dread = None, dwrite = None\<rparr>)"


text \<open>The same volume after three bytes were written to the file: block 5 holds them.\<close>

definition ex_file_state :: dstate where
  "ex_file_state = \<lparr>disk = ex_disk((1, 4) := (\<lambda>_. 0)(0 := 0x3F), (1, 5) := (\<lambda>_. 0)(0 := 65, 1 := 66, 2 := 67)),
     sb = ex_sb, logw = []\<rparr>"

definition ex_file_inode :: inode where
  "ex_file_inode = ex_inode\<lparr>size_i := 3, addrs := [5, 0, 0, 0, 0, 0, 0, 0, 0, 0, 0, 0, 0]\<rparr>"

text \<open>
  An inode pool of two slots, the root directory cached in the first and the second free,
  and a pool whose only slot is in use.
\<close>

definition ex_root :: inode where
  "ex_root = \<lparr>dev = 1, inum = 1, ref = 1, locked = False, valid = 1, type = T_DIR, major = 0,
     minor = 0, nlink = 1, size_i = 0, addrs = replicate 13 0\<rparr>"

definition ex_free :: inode where
  "ex_free = ex_root\<lparr>inum := 0, ref := 0, valid := 0\<rparr>"

definition ex_kstate :: kstate where
  "ex_kstate = \<lparr>ds = ex_state, icache = [ex_root, ex_free], cwd = 0\<rparr>"

definition ex_full :: kstate where
  "ex_full = \<lparr>ds = ex_state, icache = [ex_root], cwd = 0\<rparr>"

text \<open>The volume with every block marked as used.\<close>

definition ex_full_state :: dstate where
  "ex_full_state = \<lparr>disk = ex_disk((1, 4) := (\<lambda>_. 0)(0 := 0xFF, 1 := 0xFF)), sb = ex_sb, logw = []\<rparr>"


section \<open>Constants and frame properties\<close>

lemma consts_simps:
  "BSIZE = 512" "NDIRECT = 11" "NINDIRECT = 128" "MAXFILE = 16523" "BPB = 4096"
  "IPB = 8" "DINODE_SIZE = 64" "DIRSIZ = 14" "DIRENT_SIZE = 16"
  by (simp_all add: BSIZE_def NDIRECT_def NINDIRECT_def MAXFILE_def BPB_def IPB_def
      DINODE_SIZE_def DIRSIZ_def DIRENT_SIZE_def)

lemma sb_buf_set [simp]: "sb (buf_set s dv b d) = sb s"
  by (simp add: buf_set_def)

lemma sb_log_write [simp]: "sb (log_write s dv b) = sb s"
  by (simp add: log_write_def)

lemma disk_log_write [simp]: "disk (log_write s dv b) = disk s"
  by (simp add: log_write_def)

lemma logw_buf_set [simp]: "logw (buf_set s dv b d) = logw s"
  by (simp add: buf_set_def)

lemma disk_buf_set [simp]: "disk (buf_set s dv b d) = (disk s)((dv, b) := d)"
  by (simp add: buf_set_def)

lemma logw_log_write [simp]: "logw (log_write s dv b) = logw s @ [(dv, b)]"
  by (simp add: log_write_def)

lemma bread_log_write [simp]: "bread (log_write s dv b) = bread s"
  by (simp add: bread_def fun_eq_iff)

lemma bread_buf_set:
  "bread (buf_set s dv b d) dv' b' = (if dv' = dv \<and> b' = b then d else bread s dv' b')"
  by (simp add: bread_def)

lemma sb_bzero [simp]: "sb (bzero s dv b) = sb s"
  by (simp add: bzero_def)

lemma sb_balloc_mark [simp]: "sb (balloc_mark s dv b bi) = sb s"
  by (simp add: balloc_mark_def Let_def)

lemma balloc_scan_sb: "balloc_scan s dv b bi = Some (a, s') \<Longrightarrow> sb s' = sb s"
  by (induction s dv b bi rule: balloc_scan.induct)
    (subst (asm) balloc_scan.simps, auto split: if_splits)

lemma balloc_from_sb: "balloc_from s dv b = Inr (a, s') \<Longrightarrow> sb s' = sb s"
  by (induction s dv b rule: balloc_from.induct)
    (subst (asm) balloc_from.simps, auto split: if_splits option.splits dest: balloc_scan_sb)

lemma balloc_sb: "balloc s dv = Inr (a, s') \<Longrightarrow> sb s' = sb s"
  unfolding balloc_def by (rule balloc_from_sb)

lemma bmap_slot_frame:
  "bmap_slot s ip i = Inr (a, s', ip') \<Longrightarrow>
     sb s' = sb s \<and> ip' = ip\<lparr>addrs := addrs ip'\<rparr> \<and> length (addrs ip') = length (addrs ip)"
  by (auto simp: bmap_slot_def split: if_splits sum.splits dest: balloc_sb)

lemma bmap_entry_sb: "bmap_entry s dv blk i = Inr (a, s') \<Longrightarrow> sb s' = sb s"
  by (auto simp: bmap_entry_def split: if_splits sum.splits dest: balloc_sb)

lemma bmap_frame:
  assumes "bmap s ip bn = Inr (a, s', ip')"
  shows "sb s' = sb s \<and> ip' = ip\<lparr>addrs := addrs ip'\<rparr> \<and> length (addrs ip') = length (addrs ip)"
  using assms
  by (auto simp: bmap_def Let_def split: if_splits sum.splits prod.splits
      dest!: bmap_slot_frame bmap_entry_sb)

lemma step_bounds:
  fixes tot n off m :: u32
  assumes "tot < n" and m: "m = min (n - tot) (of_nat BSIZE - off mod of_nat BSIZE)"
  shows "unat m = min (unat n - unat tot) (BSIZE - unat off mod BSIZE)"
    and "0 < unat m" and "unat (tot + m) = unat tot + unat m" and "unat tot + unat m \<le> unat n"
proof -
  have lt: "unat tot < unat n"
    using assms(1) by (simp add: word_less_nat_alt)
  have d1: "unat (n - tot) = unat n - unat tot"
    using lt by (simp add: unat_sub word_le_nat_alt)
  have le: "off mod 512 \<le> 512"
    by (simp add: word_le_nat_alt unat_mod)
  have d2: "unat (512 - off mod 512) = 512 - unat off mod 512"
    using unat_sub [OF le] by (simp add: unat_mod)
  show um: "unat m = min (unat n - unat tot) (BSIZE - unat off mod BSIZE)"
    unfolding m BSIZE_def by (simp add: min_def word_le_nat_alt d1 d2)
  show "0 < unat m"
    using um lt by (simp add: BSIZE_def)
  show le2: "unat tot + unat m \<le> unat n"
    using um lt by simp
  have "unat n < 2 ^ 32"
    using unsigned_less [of n] by simp
  then show "unat (tot + m) = unat tot + unat m"
    using le2 by (simp add: unat_add_lem [THEN iffD1])
qed

lemma writei_loop_frame:
  assumes "writei_loop s ip src off n tot = Inr (s', ip', off')"
    and "unat tot \<le> unat n" and "unat off + (unat n - unat tot) < 2 ^ 32"
  shows "unat off' = unat off + (unat n - unat tot) \<and> ip' = ip\<lparr>addrs := addrs ip'\<rparr>
    \<and> length (addrs ip') = length (addrs ip) \<and> sb s' = sb s"
  using assms
proof (induction s ip src off n tot rule: writei_loop.induct)
  case (1 s ip src off n tot)
  show ?case
  proof (cases "tot < n")
    case False
    with "1.prems" show ?thesis
      by (subst (asm) writei_loop.simps) (auto simp: word_less_nat_alt)
  next
    case True
    define m where "m = min (n - tot) (of_nat BSIZE - off mod of_nat BSIZE)"
    note sb = step_bounds [OF True m_def]
    from "1.prems"(1) True obtain a s1 ip1 where
      bm: "bmap s ip (off div of_nat BSIZE) = Inr (a, s1, ip1)"
      by (subst (asm) writei_loop.simps) (auto split: sum.splits)
    define s2 where "s2 = log_write (buf_set s1 (dev ip1) a
        (\<lambda>k. if unat (off mod of_nat BSIZE) \<le> k \<and> k < unat (off mod of_nat BSIZE) + unat m
             then src (unat tot + (k - unat (off mod of_nat BSIZE))) else bread s1 (dev ip1) a k)) (dev ip1) a"
    have rec: "writei_loop s2 ip1 src (off + m) n (tot + m) = Inr (s', ip', off')"
      using "1.prems"(1) True bm
      by (subst (asm) writei_loop.simps) (simp add: Let_def s2_def m_def)
    have "unat off + unat m < 2 ^ 32"
      using sb(4) "1.prems"(3) by arith
    then have offm: "unat (off + m) = unat off + unat m"
      by (simp add: unat_add_lem [THEN iffD1])
    have ih: "unat off' = unat (off + m) + (unat n - unat (tot + m)) \<and> ip' = ip1\<lparr>addrs := addrs ip'\<rparr>
       \<and> length (addrs ip') = length (addrs ip1) \<and> sb s' = sb s2"
    proof -
      note IH = "1.IH" [OF True bm refl refl refl refl refl refl refl, folded m_def, folded s2_def]
      have b1: "unat (tot + m) \<le> unat n"
        using sb(3,4) by simp
      have b2: "unat (off + m) + (unat n - unat (tot + m)) < 2 ^ 32"
        using sb(3,4) offm "1.prems"(3) by arith
      show ?thesis
        by (rule IH [OF rec b1 b2])
    qed
    from bmap_frame [OF bm] have f: "sb s1 = sb s" "ip1 = ip\<lparr>addrs := addrs ip1\<rparr>"
      "length (addrs ip1) = length (addrs ip)" by auto
    have "ip' = ip\<lparr>addrs := addrs ip'\<rparr>"
    proof -
      have "ip' = ip1\<lparr>addrs := addrs ip'\<rparr>" using ih by simp
      also have "\<dots> = (ip\<lparr>addrs := addrs ip1\<rparr>)\<lparr>addrs := addrs ip'\<rparr>" using f(2) by simp
      finally show ?thesis by simp
    qed
    then show ?thesis
      using ih f sb offm by (simp add: s2_def)
  qed
qed

section \<open>Translation of mapped blocks\<close>

lemma bmap_slot_present:
  "addrs ip ! i \<noteq> 0 \<Longrightarrow> bmap_slot s ip i = Inr (addrs ip ! i, s, ip)"
  by (simp add: bmap_slot_def)

lemma bmap_entry_present:
  "ent s dv blk i \<noteq> 0 \<Longrightarrow> bmap_entry s dv blk i = Inr (ent s dv blk i, s)"
  by (simp add: bmap_entry_def ent_def)

lemma unat_sub_const:
  fixes bn :: u32
  shows "NDIRECT \<le> unat bn \<Longrightarrow> unat (bn - of_nat NDIRECT) = unat bn - NDIRECT"
    and "NDIRECT + NINDIRECT \<le> unat bn \<Longrightarrow>
      unat (bn - of_nat NDIRECT - of_nat NINDIRECT) = unat bn - NDIRECT - NINDIRECT"
proof -
  have a: "unat (bn - 11) = unat bn - 11" if "11 \<le> unat bn"
    using that by (simp add: unat_sub word_le_nat_alt)
  then show "NDIRECT \<le> unat bn \<Longrightarrow> unat (bn - of_nat NDIRECT) = unat bn - NDIRECT"
    by (simp add: consts_simps)
  have b: "unat (bn - 11 - 128) = unat (bn - 11) - 128" if "139 \<le> unat bn"
    using that a by (simp add: unat_sub word_le_nat_alt)
  show "NDIRECT + NINDIRECT \<le> unat bn \<Longrightarrow>
      unat (bn - of_nat NDIRECT - of_nat NINDIRECT) = unat bn - NDIRECT - NINDIRECT"
    using a b by (simp add: consts_simps)
qed

lemma bmap_present:
  assumes "blk_lookup s ip (unat bn) \<noteq> 0"
  shows "bmap s ip bn = Inr (blk_lookup s ip (unat bn), s, ip)"
proof -
  consider (d) "unat bn < NDIRECT"
    | (i) "NDIRECT \<le> unat bn" "unat bn < NDIRECT + NINDIRECT"
    | (dd) "NDIRECT + NINDIRECT \<le> unat bn" "unat bn < MAXFILE"
    | (out) "MAXFILE \<le> unat bn"
    by linarith
  then show ?thesis
  proof cases
    case d
    with assms show ?thesis
      by (simp add: bmap_def blk_lookup_def bmap_slot_present)
  next
    case i
    then have u: "unat (bn - of_nat NDIRECT) = unat bn - NDIRECT"
      by (simp add: unat_sub_const)
    from i assms have nz: "addrs ip ! NDIRECT \<noteq> 0"
      "ent s (dev ip) (addrs ip ! NDIRECT) (unat bn - NDIRECT) \<noteq> 0"
      by (auto simp: blk_lookup_def split: if_splits)
    have c: "\<not> unat bn < NDIRECT" "unat bn - NDIRECT < NINDIRECT"
      using i by simp_all
    show ?thesis
      using i u nz c by (simp add: bmap_def blk_lookup_def bmap_slot_present bmap_entry_present Let_def)
  next
    case dd
    then have u: "unat (bn - of_nat NDIRECT) = unat bn - NDIRECT"
      "unat (bn - of_nat NDIRECT - of_nat NINDIRECT) = unat bn - NDIRECT - NINDIRECT"
      by (simp_all add: unat_sub_const)
    let ?r = "unat bn - NDIRECT - NINDIRECT"
    let ?D = "addrs ip ! (NDIRECT + 1)"
    from dd assms have nz: "?D \<noteq> 0" "ent s (dev ip) ?D (?r div NINDIRECT) \<noteq> 0"
      "ent s (dev ip) (ent s (dev ip) ?D (?r div NINDIRECT)) (?r mod NINDIRECT) \<noteq> 0"
      by (auto simp: blk_lookup_def Let_def split: if_splits)
    have c: "\<not> unat bn < NDIRECT" "\<not> unat bn - NDIRECT < NINDIRECT"
      "\<not> unat bn < NDIRECT + NINDIRECT" "?r < NINDIRECT * NINDIRECT"
      using dd by (simp_all add: MAXFILE_def)
    show ?thesis
      using dd(2) nz c
      by (simp add: bmap_def blk_lookup_def bmap_slot_present bmap_entry_present Let_def u)
  next
    case out
    with assms show ?thesis
      by (simp add: blk_lookup_def consts_simps)
  qed
qed

lemma bmap_out_of_range:
  assumes "MAXFILE \<le> unat bn"
  shows "bmap s ip bn = Inl (Panic ''bmap: out of range'')"
proof -
  have u: "unat (bn - of_nat NDIRECT) = unat bn - NDIRECT"
    "unat (bn - of_nat NDIRECT - of_nat NINDIRECT) = unat bn - NDIRECT - NINDIRECT"
    using assms by (simp_all add: unat_sub_const MAXFILE_def)
  have c: "\<not> unat bn < NDIRECT" "\<not> unat bn - NDIRECT < NINDIRECT"
    "\<not> unat bn - NDIRECT - NINDIRECT < NINDIRECT * NINDIRECT"
    using assms by (simp_all add: MAXFILE_def)
  show ?thesis
    using c by (simp add: bmap_def Let_def u)
qed

section \<open>Write: rejected requests and the size ceiling\<close>

lemma sint_small: "unat (n::u32) < 2 ^ 31 \<Longrightarrow> sint n = int (unat n)"
proof -
  assume a: "unat n < 2 ^ 31"
  then have "unat n < 2147483648"
    by simp
  then have "int (unat n) < 2147483648"
    by linarith
  then have u: "uint n < 2 ^ 31"
    by simp
  have "(0::int) \<le> uint n"
    by simp
  moreover have "- (2 ^ 31) \<le> (0::int)"
    by simp
  ultimately have lo: "- (2 ^ 31) \<le> uint n"
    by (rule order_trans [rotated])
  have "signed_take_bit 31 (uint n) = uint n"
    by (rule signed_take_bit_int_eq_self [OF lo u])
  then show ?thesis
    by (simp add: sint_uint)
qed
lemma unat_lt32: "unat (x::u32) < 2 ^ 32"
  using unsigned_less [of x, where ?'a = nat] by simp

lemma unat_maxbytes: "unat (of_nat (MAXFILE * BSIZE) :: u32) = MAXFILE * BSIZE"
  by (simp add: consts_simps)

lemma writei_size:
  assumes nd: "type ip \<noteq> T_DEV"
    and ok: "writei devsw s ip src off n = Inr (r, s', ip')"
    and pre: "off \<le> size_i ip" "off \<le> off + n" "off + n \<le> of_nat (MAXFILE * BSIZE)"
  shows "r = int (unat n) \<and> size_i ip' = max (size_i ip) (off + n) \<and> unat (off + n) \<le> MAXFILE * BSIZE
    \<and> ip' = ip\<lparr>addrs := addrs ip', size_i := size_i ip'\<rparr> \<and> length (addrs ip') = length (addrs ip)"
proof -
  have nowrap: "unat (off + n) = unat off + unat n"
    using pre(2) by (simp add: no_olen_add_nat unat_add_lem [THEN iffD1])
  have bound: "unat (off + n) \<le> MAXFILE * BSIZE"
    using pre(3) by (simp only: word_le_nat_alt unat_maxbytes)
  have nsmall: "unat n < 2 ^ 31"
    using bound nowrap by (simp add: consts_simps)
  have r: "sint n = int (unat n)"
    using nsmall by (rule sint_small)
  from ok nd pre obtain s1 ip1 off1 where
    lp: "writei_loop s ip src off n 0 = Inr (s1, ip1, off1)"
    and res: "(r, s', ip') = (if n > 0 \<and> off1 > size_i ip1
        then (sint n, iupdate s1 (ip1\<lparr>size_i := off1\<rparr>), ip1\<lparr>size_i := off1\<rparr>) else (sint n, s1, ip1))"
    by (auto simp: writei_def Let_def not_less split: if_splits sum.splits)
  have "unat off + (unat n - unat (0::u32)) < 2 ^ 32"
    using nowrap unat_lt32 [of "off + n"] by simp
  from writei_loop_frame [OF lp _ this]
  have fr: "unat off1 = unat off + unat n" "ip1 = ip\<lparr>addrs := addrs ip1\<rparr>"
    "length (addrs ip1) = length (addrs ip)"
    by simp_all
  have off1: "off1 = off + n"
    using fr(1) nowrap by (simp add: word_unat_eq_iff)
  have sz1: "size_i ip1 = size_i ip"
    by (subst fr(2)) simp
  show ?thesis
  proof (cases "n > 0 \<and> off1 > size_i ip1")
    case True
    then have "max (size_i ip) (off + n) = off + n"
      using off1 sz1 by (auto simp: max_def)
    moreover have "ip1\<lparr>size_i := off1\<rparr> = ip\<lparr>addrs := addrs ip1, size_i := off1\<rparr>"
      by (subst fr(2)) simp
    moreover from res True have "r = sint n \<and> ip' = ip1\<lparr>size_i := off1\<rparr>"
      by simp
    ultimately show ?thesis
      using r bound off1 fr(3) by simp
  next
    case False
    have "off + n \<le> size_i ip"
    proof (cases "n = 0")
      case True
      then show ?thesis using pre(1) by simp
    next
      case False
      then have "0 < n" by (simp add: word_greater_zero_iff)
      with \<open>\<not> (n > 0 \<and> off1 > size_i ip1)\<close> show ?thesis
        using off1 sz1 by (simp add: not_less)
    qed
    then have "max (size_i ip) (off + n) = size_i ip"
      by (simp add: max_def)
    moreover have "ip1 = ip\<lparr>addrs := addrs ip1, size_i := size_i ip1\<rparr>"
      by (subst fr(2)) (simp add: sz1)
    moreover from res False have "r = sint n \<and> ip' = ip1"
      by simp
    ultimately show ?thesis
      using r bound sz1 fr(3) by simp
  qed
qed

text \<open>
  C3: on a non-device inode, \<open>writei\<close> returns the failure value and leaves the state and
  the inode as they were when the offset exceeds the size, when \<open>off + n\<close> wraps or when
  \<open>off + n\<close> exceeds \<open>MAXFILE * BSIZE\<close>; and whenever \<open>writei\<close> returns, the size is at
  most the larger of the old size and \<open>MAXFILE * BSIZE\<close>, so no write makes a file grow
  past that ceiling.
\<close>

theorem writei_rejects:
  assumes "type ip \<noteq> T_DEV"
  shows "(size_i ip < off \<or> off + n < off \<or> of_nat (MAXFILE * BSIZE) < off + n
            \<longrightarrow> writei devsw s ip src off n = Inr (- 1, s, ip))
       \<and> (\<forall>r s' ip'. writei devsw s ip src off n = Inr (r, s', ip')
            \<longrightarrow> unat (size_i ip') \<le> max (unat (size_i ip)) (MAXFILE * BSIZE))"
proof (intro conjI impI allI)
  assume "size_i ip < off \<or> off + n < off \<or> of_nat (MAXFILE * BSIZE) < off + n"
  then show "writei devsw s ip src off n = Inr (- 1, s, ip)"
    using assms by (auto simp: writei_def)
next
  fix r s' ip'
  assume ok: "writei devsw s ip src off n = Inr (r, s', ip')"
  show "unat (size_i ip') \<le> max (unat (size_i ip)) (MAXFILE * BSIZE)"
  proof (cases "size_i ip < off \<or> off + n < off \<or> of_nat (MAXFILE * BSIZE) < off + n")
    case True
    then have "writei devsw s ip src off n = Inr (- 1, s, ip)"
      using assms by (auto simp: writei_def)
    with ok show ?thesis by simp
  next
    case False
    then have pre: "off \<le> size_i ip" "off \<le> off + n" "off + n \<le> of_nat (MAXFILE * BSIZE)"
      by (simp_all add: not_less)
    from writei_size [OF assms ok pre]
    have "size_i ip' = max (size_i ip) (off + n)" "unat (off + n) \<le> MAXFILE * BSIZE"
      by simp_all
    then show ?thesis
      by (auto simp: max_def word_le_nat_alt)
  qed
qed

theorem writei_rejects_witness:
  "writei ex_devsw ex_state ex_inode (\<lambda>_. 0) 1 0 = Inr (- 1, ex_state, ex_inode)
   \<and> writei ex_devsw ex_state ex_inode (\<lambda>_. 0) 0 0 = Inr (0, ex_state, ex_inode)
   \<and> unat (size_i ex_inode) \<le> max (unat (size_i ex_inode)) (MAXFILE * BSIZE)"
proof -
  have t: "type ex_inode \<noteq> T_DEV"
    by (simp add: ex_inode_def T_FILE_def T_DEV_def)
  have w: "writei ex_devsw ex_state ex_inode (\<lambda>_. 0) 0 0 = Inr (0, ex_state, ex_inode)"
    using t by (simp add: writei_def writei_loop.simps ex_inode_def)
  have c: "size_i ex_inode < 1"
    by (simp add: ex_inode_def)
  from writei_rejects [OF t, of 1 0 ex_devsw ex_state "\<lambda>_. 0"] c w
  show ?thesis by auto
qed

section \<open>Read\<close>

lemma same_block:
  assumes "j < BSIZE - p mod BSIZE"
  shows "(p + j) div BSIZE = p div BSIZE" and "(p + j) mod BSIZE = p mod BSIZE + j"
proof -
  have "p + j = p div BSIZE * BSIZE + (p mod BSIZE + j)"
    by simp
  moreover have "p mod BSIZE + j < BSIZE"
    using assms by simp
  ultimately show "(p + j) div BSIZE = p div BSIZE" "(p + j) mod BSIZE = p mod BSIZE + j"
    by (metis div_mult_self3 div_less add_cancel_right_right BSIZE_def zero_neq_numeral
        mod_mult_self3 mod_less)+
qed

lemma unat_div_bsize: "unat ((off::u32) div of_nat BSIZE) = unat off div BSIZE"
  by (simp add: unat_div BSIZE_def)

lemma unat_mod_bsize: "unat ((off::u32) mod of_nat BSIZE) = unat off mod BSIZE"
  by (simp add: unat_mod BSIZE_def)

lemma readi_loop_mapped:
  assumes "\<forall>k. unat tot \<le> k \<and> k < unat n \<longrightarrow>
      blk_lookup s ip ((unat off + (k - unat tot)) div BSIZE) \<noteq> 0"
    and "unat tot \<le> unat n" and "unat off + (unat n - unat tot) < 2 ^ 32"
  shows "readi_loop s ip dst off n tot =
    Inr (s, ip, \<lambda>k. if unat tot \<le> k \<and> k < unat n then fbyte s ip (unat off + (k - unat tot)) else dst k)"
  using assms
proof (induction s ip dst off n tot rule: readi_loop.induct)
  case (1 s ip dst off n tot)
  show ?case
  proof (cases "tot < n")
    case False
    then have "unat n \<le> unat tot"
      by (simp add: word_less_nat_alt)
    then have "(\<lambda>k. if unat tot \<le> k \<and> k < unat n then fbyte s ip (unat off + (k - unat tot)) else dst k) = dst"
      by (auto simp: fun_eq_iff)
    then show ?thesis
      using False by (subst readi_loop.simps) simp
  next
    case True
    define m where "m = min (n - tot) (of_nat BSIZE - off mod of_nat BSIZE)"
    note sb = step_bounds [OF True m_def]
    have lt: "unat tot < unat n"
      using True by (simp add: word_less_nat_alt)
    let ?a = "blk_lookup s ip (unat off div BSIZE)"
    have "blk_lookup s ip (unat (off div of_nat BSIZE)) \<noteq> 0"
      using "1.prems"(1) [rule_format, of "unat tot"] lt by (simp add: unat_div_bsize)
    then have bm: "bmap s ip (off div of_nat BSIZE) = Inr (?a, s, ip)"
      using bmap_present [of s ip "off div of_nat BSIZE"] by (simp add: unat_div_bsize)
    define dst1 where "dst1 = (\<lambda>k. if unat tot \<le> k \<and> k < unat tot + unat m
        then bread s (dev ip) ?a (unat (off mod of_nat BSIZE) + (k - unat tot)) else dst k)"
    have "unat off + unat m < 2 ^ 32"
      using sb(4) "1.prems"(3) by arith
    then have offm: "unat (off + m) = unat off + unat m"
      by (simp add: unat_add_lem [THEN iffD1])
    note IH = "1.IH" [OF True bm refl refl refl refl refl, folded m_def, folded dst1_def]
    have p1: "\<forall>k. unat (tot + m) \<le> k \<and> k < unat n \<longrightarrow>
        blk_lookup s ip ((unat (off + m) + (k - unat (tot + m))) div BSIZE) \<noteq> 0"
    proof (intro allI impI)
      fix k assume k: "unat (tot + m) \<le> k \<and> k < unat n"
      then have e: "unat (off + m) + (k - unat (tot + m)) = unat off + (k - unat tot)"
        using sb(3) offm by arith
      have "blk_lookup s ip ((unat off + (k - unat tot)) div BSIZE) \<noteq> 0"
        using "1.prems"(1) [rule_format, of k] k sb(3) by simp
      then show "blk_lookup s ip ((unat (off + m) + (k - unat (tot + m))) div BSIZE) \<noteq> 0"
        unfolding e .
    qed
    have p2: "unat (tot + m) \<le> unat n"
      using sb(3,4) by simp
    have p3: "unat (off + m) + (unat n - unat (tot + m)) < 2 ^ 32"
      using sb(3,4) offm "1.prems"(3) by arith
    have rec: "readi_loop s ip dst off n tot = readi_loop s ip dst1 (off + m) n (tot + m)"
      using True bm by (subst readi_loop.simps) (simp add: Let_def m_def dst1_def)
    have "(\<lambda>k. if unat (tot + m) \<le> k \<and> k < unat n
              then fbyte s ip (unat (off + m) + (k - unat (tot + m))) else dst1 k)
        = (\<lambda>k. if unat tot \<le> k \<and> k < unat n then fbyte s ip (unat off + (k - unat tot)) else dst k)"
    proof (rule ext)
      fix k
      consider (lo) "k < unat tot" | (mid) "unat tot \<le> k" "k < unat tot + unat m"
        | (hi) "unat tot + unat m \<le> k" "k < unat n" | (out) "unat n \<le> k"
        by linarith
      then show "(if unat (tot + m) \<le> k \<and> k < unat n
              then fbyte s ip (unat (off + m) + (k - unat (tot + m))) else dst1 k)
        = (if unat tot \<le> k \<and> k < unat n then fbyte s ip (unat off + (k - unat tot)) else dst k)"
      proof cases
        case lo
        then show ?thesis by (simp add: sb(3) dst1_def)
      next
        case mid
        then have j: "k - unat tot < BSIZE - unat off mod BSIZE"
          using sb(1) by simp
        have kn: "k < unat n"
          using mid sb(4) by simp
        show ?thesis
          using mid kn same_block [OF j]
          by (simp add: sb(3) dst1_def fbyte_def unat_mod_bsize)
      next
        case hi
        then have e: "unat (off + m) + (k - unat (tot + m)) = unat off + (k - unat tot)"
          using sb(3) offm by arith
        have "unat (tot + m) \<le> k \<and> k < unat n" "unat tot \<le> k \<and> k < unat n"
          using hi sb(3) by simp_all
        then show ?thesis
          unfolding e by simp
      next
        case out
        then show ?thesis
          using sb(4) by (simp add: sb(3) dst1_def)
      qed
    qed
    then show ?thesis
      using IH [OF p1 p2 p3] rec unfolding dst1_def by simp
  qed
qed

lemma blk_lookup_bound: "blk_lookup s ip bn \<noteq> 0 \<Longrightarrow> bn < MAXFILE"
  by (auto simp: blk_lookup_def MAXFILE_def split: if_splits)

lemma readi_clamped:
  assumes nd: "type ip \<noteq> T_DEV"
    and pre: "off \<le> size_i ip" "off \<le> off + n"
    and mp: "\<forall>k < min (unat n) (unat (size_i ip) - unat off).
        blk_lookup s ip ((unat off + k) div BSIZE) \<noteq> 0"
  shows "readi devsw s ip dst off n =
    Inr (int (min (unat n) (unat (size_i ip) - unat off)), s, ip,
      \<lambda>k. if k < min (unat n) (unat (size_i ip) - unat off) then fbyte s ip (unat off + k) else dst k)"
proof -
  define n1 where "n1 = (if off + n > size_i ip then size_i ip - off else n)"
  let ?r = "min (unat n) (unat (size_i ip) - unat off)"
  have nowrap: "unat (off + n) = unat off + unat n"
    using pre(2) by (simp add: no_olen_add_nat unat_add_lem [THEN iffD1])
  have ole: "unat off \<le> unat (size_i ip)"
    using pre(1) by (simp add: word_le_nat_alt)
  have n1: "unat n1 = ?r"
    using nowrap ole pre(1) by (auto simp: n1_def word_less_nat_alt unat_sub min_def)
  have small: "unat n1 < 2 ^ 31"
  proof (cases "?r = 0")
    case True
    then show ?thesis using n1 by simp
  next
    case False
    then have "?r - 1 < ?r" by linarith
    with mp have "blk_lookup s ip ((unat off + (?r - 1)) div BSIZE) \<noteq> 0"
      by blast
    then have "(unat off + (?r - 1)) div BSIZE < MAXFILE"
      by (rule blk_lookup_bound)
    then have "unat off + (?r - 1) < MAXFILE * BSIZE"
      by (simp add: consts_simps)
    then show ?thesis
      using n1 by (simp add: consts_simps)
  qed
  have r: "sint n1 = int ?r"
    using sint_small [OF small] n1 by simp
  have b3: "unat off + (unat n1 - unat (0::u32)) < 2 ^ 32"
    using n1 ole unat_lt32 [of "size_i ip"] by simp
  have "\<forall>k. unat (0::u32) \<le> k \<and> k < unat n1 \<longrightarrow>
      blk_lookup s ip ((unat off + (k - unat (0::u32))) div BSIZE) \<noteq> 0"
    using mp n1 by simp
  from readi_loop_mapped [OF this _ b3, of dst]
  have lp: "readi_loop s ip dst off n1 0 =
      Inr (s, ip, \<lambda>k. if k < ?r then fbyte s ip (unat off + k) else dst k)"
    using n1 by (simp cong: if_cong)
  have "\<not> (size_i ip < off \<or> off + n < off)"
    using pre by (simp add: not_less)
  then show ?thesis
    using nd lp r unfolding readi_def n1_def [symmetric] by (simp add: Let_def n1_def [symmetric])
qed

text \<open>
  C5, as the code has it: on a non-device inode, \<open>readi\<close> fails when the offset exceeds
  the size or \<open>off + n\<close> wraps. Otherwise, on a file whose blocks under the clamped range
  are all mapped, it returns \<open>min n (size - off)\<close>, leaves the file system state and the
  inode as they were, and has copied exactly that many bytes of the file content from
  \<open>off\<close> on into the start of the destination, whose other bytes are unchanged. The
  restriction to mapped blocks is needed: for an unmapped block \<open>readi\<close> calls \<open>bmap\<close>,
  which allocates a block or panics.
\<close>

theorem readi_clamps_and_copies:
  assumes "type ip \<noteq> T_DEV"
  shows "(size_i ip < off \<or> off + n < off \<longrightarrow> readi devsw s ip dst off n = Inr (- 1, s, ip, dst))
       \<and> (off \<le> size_i ip \<and> off \<le> off + n
           \<and> (\<forall>k < min (unat n) (unat (size_i ip) - unat off).
                 blk_lookup s ip ((unat off + k) div BSIZE) \<noteq> 0)
           \<longrightarrow> unat off + min (unat n) (unat (size_i ip) - unat off) \<le> unat (size_i ip)
             \<and> readi devsw s ip dst off n =
                 Inr (int (min (unat n) (unat (size_i ip) - unat off)), s, ip,
                   \<lambda>k. if k < min (unat n) (unat (size_i ip) - unat off)
                       then fbyte s ip (unat off + k) else dst k))"
proof (intro conjI impI)
  assume "size_i ip < off \<or> off + n < off"
  then show "readi devsw s ip dst off n = Inr (- 1, s, ip, dst)"
    using assms by (auto simp: readi_def)
next
  assume a: "off \<le> size_i ip \<and> off \<le> off + n
           \<and> (\<forall>k < min (unat n) (unat (size_i ip) - unat off).
                 blk_lookup s ip ((unat off + k) div BSIZE) \<noteq> 0)"
  then have "unat off \<le> unat (size_i ip)"
    by (simp add: word_le_nat_alt)
  then show "unat off + min (unat n) (unat (size_i ip) - unat off) \<le> unat (size_i ip)"
    by linarith
  from a show "readi devsw s ip dst off n =
                 Inr (int (min (unat n) (unat (size_i ip) - unat off)), s, ip,
                   \<lambda>k. if k < min (unat n) (unat (size_i ip) - unat off)
                       then fbyte s ip (unat off + k) else dst k)"
    using readi_clamped [OF assms, of off n s devsw dst] by blast
qed

lemma ex_file_type: "type ex_file_inode \<noteq> T_DEV"
  by (simp add: ex_file_inode_def ex_inode_def T_FILE_def T_DEV_def)

lemma ex_file_lookup: "blk_lookup ex_file_state ex_file_inode 0 = 5"
  by (simp add: blk_lookup_def ex_file_inode_def NDIRECT_def)

theorem readi_clamps_and_copies_witness:
  "readi ex_devsw ex_file_state ex_file_inode (\<lambda>_. 0) 4 1 = Inr (- 1, ex_file_state, ex_file_inode, \<lambda>_. 0)
   \<and> readi ex_devsw ex_file_state ex_file_inode (\<lambda>_. 0) 1 10 =
       Inr (2, ex_file_state, ex_file_inode, \<lambda>k. if k < 2 then fbyte ex_file_state ex_file_inode (1 + k) else 0)
   \<and> fbyte ex_file_state ex_file_inode 1 = 66 \<and> fbyte ex_file_state ex_file_inode 2 = 67"
proof -
  have sz: "size_i ex_file_inode = 3"
    by (simp add: ex_file_inode_def)
  have m: "\<forall>k < min (unat (10::u32)) (unat (size_i ex_file_inode) - unat (1::u32)).
      blk_lookup ex_file_state ex_file_inode ((unat (1::u32) + k) div BSIZE) \<noteq> 0"
    by (simp add: sz BSIZE_def ex_file_lookup)
  have d: "dev ex_file_inode = 1"
    by (simp add: ex_file_inode_def ex_inode_def)
  have b: "bread ex_file_state 1 5 = (\<lambda>_. 0)(0 := 65, 1 := 66, 2 := 67)"
    by (simp add: bread_def ex_file_state_def)
  have f: "fbyte ex_file_state ex_file_inode 1 = 66" "fbyte ex_file_state ex_file_inode 2 = 67"
    by (simp_all add: fbyte_def BSIZE_def ex_file_lookup d b)
  from readi_clamps_and_copies [OF ex_file_type, of 4 1 ex_devsw ex_file_state "\<lambda>_. 0"]
    readi_clamps_and_copies [OF ex_file_type, of 1 10 ex_devsw ex_file_state "\<lambda>_. 0"] m f
  show ?thesis
    by (simp add: sz cong: if_cong)
qed

text \<open>
  C10, as the code has it: a read at an offset equal to the size whose \<open>off + n\<close> does not
  wrap, and a read of length zero at an offset up to the size, return 0 and leave the
  destination, the state and the inode untouched; a read fails when the offset exceeds the
  size and also when \<open>off + n\<close> wraps.
\<close>

theorem readi_at_end:
  assumes "type ip \<noteq> T_DEV"
  shows "((off = size_i ip \<and> off \<le> off + n) \<or> (n = 0 \<and> off \<le> size_i ip)
            \<longrightarrow> readi devsw s ip dst off n = Inr (0, s, ip, dst))
       \<and> (size_i ip < off \<or> off + n < off \<longrightarrow> readi devsw s ip dst off n = Inr (- 1, s, ip, dst))"
proof (intro conjI impI)
  assume "size_i ip < off \<or> off + n < off"
  then show "readi devsw s ip dst off n = Inr (- 1, s, ip, dst)"
    using assms by (auto simp: readi_def)
next
  assume a: "(off = size_i ip \<and> off \<le> off + n) \<or> (n = 0 \<and> off \<le> size_i ip)"
  then have pre: "off \<le> size_i ip" "off \<le> off + n"
    by auto
  from a have z: "min (unat n) (unat (size_i ip) - unat off) = 0"
    by auto
  have "\<forall>k < min (unat n) (unat (size_i ip) - unat off).
        blk_lookup s ip ((unat off + k) div BSIZE) \<noteq> 0"
    by (simp add: z)
  from readi_clamped [OF assms pre this, of devsw dst]
  show "readi devsw s ip dst off n = Inr (0, s, ip, dst)"
    by (simp add: z)
qed

theorem readi_at_end_witness:
  "readi ex_devsw ex_file_state ex_file_inode (\<lambda>_. 0) 3 7 = Inr (0, ex_file_state, ex_file_inode, \<lambda>_. 0)
   \<and> readi ex_devsw ex_file_state ex_file_inode (\<lambda>_. 0) 4 0 = Inr (- 1, ex_file_state, ex_file_inode, \<lambda>_. 0)"
proof -
  have sz: "size_i ex_file_inode = 3"
    by (simp add: ex_file_inode_def)
  from readi_at_end [OF ex_file_type, of 3 7 ex_devsw ex_file_state "\<lambda>_. 0"]
    readi_at_end [OF ex_file_type, of 4 0 ex_devsw ex_file_state "\<lambda>_. 0"]
  show ?thesis
    by (simp add: sz)
qed

text \<open>
  The claim as stated fails: at an offset equal to the size (3), a length of \<open>2^32 - 1\<close>
  makes \<open>off + n\<close> wrap, and the read is reported as a failure although the offset does
  not exceed the size.
\<close>

theorem readi_at_end_counterexample:
  "readi ex_devsw ex_file_state ex_file_inode (\<lambda>_. 0) (size_i ex_file_inode) 0xFFFFFFFF
     = Inr (- 1, ex_file_state, ex_file_inode, \<lambda>_. 0)"
  using ex_file_type by (simp add: readi_def ex_file_inode_def)

section \<open>Block allocation\<close>

lemma bit_test: "((x::u8) AND push_bit (k mod 8) 1 = 0) = (\<not> bit x (k mod 8))"
  by (simp add: and_exp_eq_0_iff_not_bit)

lemma bit_set_or: "bit ((x::u8) OR push_bit (k mod 8) 1) j = (bit x j \<or> j = k mod 8)"
  by (auto simp: bit_simps)


lemma unat_of_nat32: "n < 2 ^ 32 \<Longrightarrow> unat (of_nat n :: u32) = n"
  by (simp add: unat_of_nat take_bit_nat_eq_self)

lemma word_div_bpb: "unat ((k::u32) div of_nat BPB) = unat k div BPB"
  by (simp add: unat_div BPB_def BSIZE_def)

lemma BBLOCK_of_nat:
  assumes "b mod BPB = 0" "bi < BPB" "b + bi < 2 ^ 32"
  shows "BBLOCK (of_nat (b + bi)) sbk = BBLOCK (of_nat b) sbk"
proof -
  have "(b + bi) div BPB = b div BPB"
    using assms(1,2) by (metis add.commute div_plus_div_distrib_dvd_right dvd_eq_mod_eq_0 div_less add_cancel_right_left)
  moreover have "unat (of_nat (b + bi) :: u32) = b + bi" "unat (of_nat b :: u32) = b"
    using assms(3) by (simp_all add: unat_of_nat32 del: of_nat_add)
  ultimately have "unat ((of_nat (b + bi) :: u32) div of_nat BPB) = unat ((of_nat b :: u32) div of_nat BPB)"
    by (simp add: word_div_bpb)
  then have "(of_nat (b + bi) :: u32) div of_nat BPB = of_nat b div of_nat BPB"
    by (simp add: word_unat_eq_iff)
  then show ?thesis
    by (simp add: BBLOCK_def)
qed

lemma bused_of_nat:
  assumes "b mod BPB = 0" "bi < BPB" "b + bi < 2 ^ 32"
  shows "bused s dv (of_nat (b + bi)) =
    bit (bread s dv (BBLOCK (of_nat b) (sb s)) (bi div 8)) (bi mod 8)"
proof -
  have u: "unat (of_nat (b + bi) :: u32) = b + bi"
    using assms(3) by (simp add: unat_of_nat32 del: of_nat_add)
  have m: "(b + bi) mod BPB = bi"
    using assms(1,2) by (metis mod_add_left_eq add_cancel_right_left mod_less)
  have "8 dvd BPB"
    by (simp add: BPB_def BSIZE_def)
  then have "(b + bi) mod 8 = ((b + bi) mod BPB) mod 8"
    by (simp add: mod_mod_cancel)
  then have m8: "(b + bi) mod 8 = bi mod 8"
    using m by simp
  show ?thesis
    unfolding bused_def bread_def BBLOCK_of_nat [OF assms] u m m8 ..
qed

lemma balloc_scan_none:
  assumes "b mod BPB = 0" "b + BPB \<le> 2 ^ 32"
    and "\<forall>j. bi \<le> j \<and> j < BPB \<and> b + j < unat (size_sb (sb s)) \<longrightarrow> bused s dv (of_nat (b + j))"
  shows "balloc_scan s dv b bi = None"
  using assms
proof (induction s dv b bi rule: balloc_scan.induct)
  case (1 s dv b bi)
  show ?case
  proof (cases "bi < BPB \<and> b + bi < unat (size_sb (sb s))")
    case False
    then show ?thesis
      by (subst balloc_scan.simps) (simp only: if_False)
  next
    case True
    then have "bused s dv (of_nat (b + bi))"
      using "1.prems"(3) by simp
    moreover have "b + bi < 2 ^ 32"
      using True "1.prems"(2) by simp
    ultimately have used: "\<not> (bread s dv (BBLOCK (of_nat b) (sb s)) (bi div 8) AND push_bit (bi mod 8) 1 = 0)"
      unfolding bit_test using bused_of_nat [OF "1.prems"(1), of bi s dv] True by blast
    have "\<forall>j. Suc bi \<le> j \<and> j < BPB \<and> b + j < unat (size_sb (sb s)) \<longrightarrow> bused s dv (of_nat (b + j))"
      using "1.prems"(3) by (simp del: of_nat_add)
    then have "balloc_scan s dv b (Suc bi) = None"
      by (rule "1.IH" [OF True used "1.prems"(1,2)])
    then show ?thesis
      using True used by (subst balloc_scan.simps) (simp del: of_nat_add)
  qed
qed

lemma balloc_scan_some:
  assumes "b mod BPB = 0" "b + BPB \<le> 2 ^ 32"
    and "bi \<le> j" "j < BPB" "b + j < unat (size_sb (sb s))" "\<not> bused s dv (of_nat (b + j))"
    and "\<forall>i. bi \<le> i \<and> i < j \<longrightarrow> bused s dv (of_nat (b + i))"
  shows "balloc_scan s dv b bi = Some (of_nat (b + j), balloc_mark s dv b j)"
  using assms
proof (induction s dv b bi rule: balloc_scan.induct)
  case (1 s dv b bi)
  have c: "bi < BPB \<and> b + bi < unat (size_sb (sb s))"
    using "1.prems" by simp
  have "b + bi < 2 ^ 32"
    using c "1.prems"(2) by simp
  then have bu: "bused s dv (of_nat (b + bi)) =
      (\<not> (bread s dv (BBLOCK (of_nat b) (sb s)) (bi div 8) AND push_bit (bi mod 8) 1 = 0))"
    unfolding bit_test using bused_of_nat [OF "1.prems"(1), of bi s dv] c by blast
  show ?case
  proof (cases "bi = j")
    case True
    then have free: "bread s dv (BBLOCK (of_nat b) (sb s)) (bi div 8) AND push_bit (bi mod 8) 1 = 0"
      using bu "1.prems"(6) by blast
    have "balloc_scan s dv b bi = Some (of_nat (b + bi), balloc_mark s dv b bi)"
      using c free by (subst balloc_scan.simps) (simp del: of_nat_add)
    then show ?thesis
      unfolding True .
  next
    case False
    then have lt: "bi < j" using "1.prems"(3) by simp
    then have used: "\<not> (bread s dv (BBLOCK (of_nat b) (sb s)) (bi div 8) AND push_bit (bi mod 8) 1 = 0)"
      using "1.prems"(7) bu by blast
    have sj: "Suc bi \<le> j" using lt by simp
    have "\<forall>i. Suc bi \<le> i \<and> i < j \<longrightarrow> bused s dv (of_nat (b + i))"
      using "1.prems"(7) by (simp del: of_nat_add)
    then have "balloc_scan s dv b (Suc bi) = Some (of_nat (b + j), balloc_mark s dv b j)"
      by (rule "1.IH" [OF c used "1.prems"(1,2) sj "1.prems"(4,5,6)])
    then show ?thesis
      using c used by (subst balloc_scan.simps) (simp del: of_nat_add)
  qed
qed

lemma balloc_from_some:
  assumes "b mod BPB = 0" "b \<le> k" "k < unat (size_sb (sb s))" "k < 2 ^ 31"
    and "\<not> bused s dv (of_nat k)"
    and "\<forall>i. b \<le> i \<and> i < k \<longrightarrow> bused s dv (of_nat i)"
  shows "balloc_from s dv b = Inr (of_nat k, balloc_mark s dv (k - k mod BPB) (k mod BPB))"
  using assms
proof (induction s dv b rule: balloc_from.induct)
  case (1 s dv b)
  have c: "b < unat (size_sb (sb s))"
    using "1.prems" by simp
  have b32: "b + BPB \<le> 2 ^ 32"
    using "1.prems"(2,4) by (simp add: BPB_def BSIZE_def)
  show ?case
  proof (cases "k < b + BPB")
    case True
    then have j: "k - b < BPB" "b + (k - b) = k"
      using "1.prems"(2) by simp_all
    have km: "k mod BPB = k - b"
      using j "1.prems"(1) by (metis mod_add_left_eq add_cancel_right_left mod_less)
    have "\<forall>i. 0 \<le> i \<and> i < k - b \<longrightarrow> bused s dv (of_nat (b + i))"
      using "1.prems"(6) by (simp del: of_nat_add)
    from balloc_scan_some [OF "1.prems"(1) b32 _ j(1), of 0 s dv] this "1.prems"(3,5) j(2)
    have "balloc_scan s dv b 0 = Some (of_nat k, balloc_mark s dv b (k - b))"
      by (simp del: of_nat_add)
    moreover have "k - k mod BPB = b"
      using km "1.prems"(2) by simp
    ultimately show ?thesis
      using c km by (subst balloc_from.simps) simp
  next
    case False
    have "\<forall>j. 0 \<le> j \<and> j < BPB \<and> b + j < unat (size_sb (sb s)) \<longrightarrow> bused s dv (of_nat (b + j))"
      using "1.prems"(6) False by (simp del: of_nat_add)
    from balloc_scan_none [OF "1.prems"(1) b32 this]
    have sc: "balloc_scan s dv b 0 = None" .
    have lt: "b + BPB < 2 ^ 31"
      using False "1.prems"(4) by simp
    have m: "(b + BPB) mod BPB = 0"
      using "1.prems"(1) by simp
    have "balloc_from s dv (b + BPB) = Inr (of_nat k, balloc_mark s dv (k - k mod BPB) (k mod BPB))"
      using "1.IH" [OF c sc lt m _ "1.prems"(3,4,5)] False "1.prems"(6) by simp
    then show ?thesis
      using c sc lt by (subst balloc_from.simps) simp
  qed
qed

lemma balloc_from_none:
  assumes "b mod BPB = 0" "unat (size_sb (sb s)) \<le> 2 ^ 31 - BPB"
    and "\<forall>i. b \<le> i \<and> i < unat (size_sb (sb s)) \<longrightarrow> bused s dv (of_nat i)"
  shows "balloc_from s dv b = Inl (Panic ''balloc: out of blocks'')"
  using assms
proof (induction s dv b rule: balloc_from.induct)
  case (1 s dv b)
  show ?case
  proof (cases "b < unat (size_sb (sb s))")
    case False
    then show ?thesis
      by (subst balloc_from.simps) simp
  next
    case True
    have b32: "b + BPB \<le> 2 ^ 32"
      using True "1.prems"(2) by (simp add: BPB_def BSIZE_def)
    have "\<forall>j. 0 \<le> j \<and> j < BPB \<and> b + j < unat (size_sb (sb s)) \<longrightarrow> bused s dv (of_nat (b + j))"
      using "1.prems"(3) by (simp del: of_nat_add)
    from balloc_scan_none [OF "1.prems"(1) b32 this]
    have sc: "balloc_scan s dv b 0 = None" .
    have lt: "b + BPB < 2 ^ 31"
      using True "1.prems"(2) by (simp add: BPB_def BSIZE_def)
    have m: "(b + BPB) mod BPB = 0"
      using "1.prems"(1) by simp
    have "balloc_from s dv (b + BPB) = Inl (Panic ''balloc: out of blocks'')"
      using "1.IH" [OF True sc lt m "1.prems"(2)] "1.prems"(3) by simp
    then show ?thesis
      using True sc lt by (subst balloc_from.simps) simp
  qed
qed

lemma split_blockno:
  fixes k :: u32
  shows "(unat k - unat k mod BPB) mod BPB = 0" "unat k mod BPB < BPB"
    "unat k - unat k mod BPB + unat k mod BPB = unat k"
    "of_nat (unat k - unat k mod BPB + unat k mod BPB) = k"
    "unat k mod BPB mod 8 = unat k mod 8"
proof -
  show "(unat k - unat k mod BPB) mod BPB = 0"
    by (simp add: minus_mod_eq_mult_div)
  show "unat k mod BPB < BPB"
    by (simp add: BPB_def BSIZE_def)
  show e: "unat k - unat k mod BPB + unat k mod BPB = unat k"
    by simp
  show "of_nat (unat k - unat k mod BPB + unat k mod BPB) = k"
    unfolding e by simp
  have "8 dvd BPB"
    by (simp add: BPB_def BSIZE_def)
  then show "unat k mod BPB mod 8 = unat k mod 8"
    by (simp add: mod_mod_cancel)
qed

lemma split_BBLOCK: "BBLOCK (of_nat (unat k - unat k mod BPB)) sbk = BBLOCK k sbk"
proof -
  have "unat k - unat k mod BPB + unat k mod BPB < 2 ^ 32"
    unfolding split_blockno(3) by (rule unat_lt32)
  from BBLOCK_of_nat [OF split_blockno(1,2) this, of sbk] show ?thesis
    unfolding split_blockno(4) by simp
qed

lemma balloc_at_sb [simp]: "sb (balloc_at s dv k) = sb s"
  by (simp add: balloc_at_def)

lemma balloc_at_logw: "logw (balloc_at s dv k) = logw s @ [(dv, BBLOCK k (sb s)), (dv, k)]"
  using split_blockno(4) [of k] split_BBLOCK [of k "sb s"]
  by (simp add: balloc_at_def balloc_mark_def Let_def bzero_def del: of_nat_add)

lemma balloc_at_disk:
  "disk (balloc_at s dv k) =
     (disk s)((dv, BBLOCK k (sb s)) :=
                (disk s (dv, BBLOCK k (sb s)))
                  (unat k mod BPB div 8 :=
                     disk s (dv, BBLOCK k (sb s)) (unat k mod BPB div 8) OR push_bit (unat k mod 8) 1),
              (dv, k) := (\<lambda>i. if i < BSIZE then 0
                 else ((disk s)((dv, BBLOCK k (sb s)) :=
                (disk s (dv, BBLOCK k (sb s)))
                  (unat k mod BPB div 8 :=
                     disk s (dv, BBLOCK k (sb s)) (unat k mod BPB div 8) OR push_bit (unat k mod 8) 1)))
                     (dv, k) i))"
  using split_blockno(4,5) [of k] split_BBLOCK [of k "sb s"]
  by (simp add: balloc_at_def balloc_mark_def Let_def bzero_def bread_def del: of_nat_add push_bit_of_1
      cong: if_cong)

lemma balloc_at_zero: "i < BSIZE \<Longrightarrow> disk (balloc_at s dv k) (dv, k) i = 0"
  by (simp add: balloc_at_disk)

lemma balloc_at_frame:
  "p \<noteq> (dv, BBLOCK k (sb s)) \<Longrightarrow> p \<noteq> (dv, k) \<Longrightarrow> disk (balloc_at s dv k) p = disk s p"
  by (simp add: balloc_at_disk)

lemma same_bit:
  fixes j k :: u32
  assumes "BBLOCK j sbk = BBLOCK k sbk" "unat j mod BPB div 8 = unat k mod BPB div 8"
    "unat j mod 8 = unat k mod 8"
  shows "j = k"
proof -
  have "j div of_nat BPB = k div of_nat BPB"
    using assms(1) by (simp add: BBLOCK_def)
  then have d: "unat j div BPB = unat k div BPB"
    by (metis word_div_bpb)
  have "8 dvd BPB"
    by (simp add: BPB_def BSIZE_def)
  then have "unat j mod BPB mod 8 = unat j mod 8" "unat k mod BPB mod 8 = unat k mod 8"
    by (simp_all add: mod_mod_cancel)
  then have "unat j mod BPB mod 8 = unat k mod BPB mod 8"
    using assms(3) by simp
  then have m: "unat j mod BPB = unat k mod BPB"
    using assms(2) by (metis div_mult_mod_eq)
  have "unat j = unat k"
    using d m by (metis div_mult_mod_eq)
  then show ?thesis
    by (simp add: word_unat_eq_iff)
qed

lemma balloc_at_bused:
  assumes "BBLOCK j (sb s) \<noteq> k \<or> dv' \<noteq> dv"
  shows "bused (balloc_at s dv k) dv' j = (bused s dv' j \<or> (dv' = dv \<and> j = k))"
proof (cases "dv' = dv \<and> BBLOCK j (sb s) = BBLOCK k (sb s)")
  case False
  then have "j \<noteq> k \<or> dv' \<noteq> dv"
    by auto
  moreover have "disk (balloc_at s dv k) (dv', BBLOCK j (sb s)) = disk s (dv', BBLOCK j (sb s))"
    using False assms by (intro balloc_at_frame) auto
  ultimately show ?thesis
    by (auto simp: bused_def)
next
  case True
  then have nk: "BBLOCK k (sb s) \<noteq> k"
    using assms by auto
  let ?d = "disk s (dv, BBLOCK k (sb s))"
  have blk: "disk (balloc_at s dv k) (dv, BBLOCK k (sb s)) =
      ?d(unat k mod BPB div 8 := ?d (unat k mod BPB div 8) OR push_bit (unat k mod 8) 1)"
    using True nk by (simp add: balloc_at_disk del: push_bit_of_1)
  show ?thesis
  proof (cases "unat j mod BPB div 8 = unat k mod BPB div 8")
    case False
    then have "j \<noteq> k" by auto
    then show ?thesis
      using False True by (simp add: bused_def blk)
  next
    case byte: True
    have "bit (?d (unat k mod BPB div 8) OR push_bit (unat k mod 8) 1) (unat j mod 8)
        = (bit (?d (unat k mod BPB div 8)) (unat j mod 8) \<or> unat j mod 8 = unat k mod 8)"
      using bit_set_or [of "?d (unat k mod BPB div 8)" "unat k" "unat j mod 8"] by simp
    moreover have "(unat j mod 8 = unat k mod 8) = (j = k)"
      using same_bit [of j "sb s" k] True byte by auto
    ultimately show ?thesis
      using True byte by (simp add: bused_def blk del: push_bit_of_1)
  qed
qed

lemma balloc_first_free_nat:
  fixes k :: u32
  assumes "k < size_sb (sb s)" "unat k < 2 ^ 31" "\<not> bused s dv k" "\<forall>j<k. bused s dv j"
  shows "balloc s dv = Inr (k, balloc_at s dv k)"
proof -
  have "\<forall>i. 0 \<le> i \<and> i < unat k \<longrightarrow> bused s dv (of_nat i)"
  proof (intro allI impI)
    fix i assume i: "0 \<le> i \<and> i < unat k"
    then have "i < 2 ^ 32"
      using unat_lt32 [of k] by simp
    then have "unat (of_nat i :: u32) = i"
      by (rule unat_of_nat32)
    then have "(of_nat i :: u32) < k"
      using i by (simp add: word_less_nat_alt)
    then show "bused s dv (of_nat i)"
      using assms(4) by simp
  qed
  from balloc_from_some [of 0 "unat k" s dv, OF _ _ _ assms(2) _ this]
  show ?thesis
    using assms(1,3) by (simp add: balloc_def balloc_at_def word_less_nat_alt)
qed

lemma balloc_exhausted:
  assumes "unat (size_sb (sb s)) \<le> 2 ^ 31 - BPB" "\<forall>k. k < size_sb (sb s) \<longrightarrow> bused s dv k"
  shows "balloc s dv = Inl (Panic ''balloc: out of blocks'')"
proof -
  have "\<forall>i. 0 \<le> i \<and> i < unat (size_sb (sb s)) \<longrightarrow> bused s dv (of_nat i)"
  proof (intro allI impI)
    fix i assume i: "0 \<le> i \<and> i < unat (size_sb (sb s))"
    then have "i < 2 ^ 32"
      using unat_lt32 [of "size_sb (sb s)"] by simp
    then have "unat (of_nat i :: u32) = i"
      by (rule unat_of_nat32)
    then have "(of_nat i :: u32) < size_sb (sb s)"
      using i by (simp add: word_less_nat_alt)
    then show "bused s dv (of_nat i)"
      using assms(2) by simp
  qed
  from balloc_from_none [of 0 s dv, OF _ assms(1) this] show ?thesis
    by (simp add: balloc_def)
qed

text \<open>
  C6: when the superblock's size keeps the \<open>int\<close> counter of the scan in range, \<open>balloc\<close>
  returns the lowest block number below the size whose bitmap bit is clear; the bitmap
  block and then the new block are logged, the new block is zero-filled, and its bit is
  set afterwards (unless the block handed out is itself the bitmap block that holds its
  bit, which zeroing then clears). When every bit below the size is set, \<open>balloc\<close> panics.
\<close>

theorem balloc_lowest_free:
  assumes "unat (size_sb (sb s)) \<le> 2 ^ 31 - BPB"
  shows "(\<forall>k. k < size_sb (sb s) \<and> \<not> bused s dv k \<and> (\<forall>j<k. bused s dv j) \<longrightarrow>
            (\<exists>s'. balloc s dv = Inr (k, s')
               \<and> (\<forall>i<BSIZE. disk s' (dv, k) i = 0)
               \<and> logw s' = logw s @ [(dv, BBLOCK k (sb s)), (dv, k)]
               \<and> (BBLOCK k (sb s) \<noteq> k \<longrightarrow> bused s' dv k)))
       \<and> ((\<forall>k. k < size_sb (sb s) \<longrightarrow> bused s dv k)
            \<longrightarrow> balloc s dv = Inl (Panic ''balloc: out of blocks''))"
proof (intro conjI allI impI)
  fix k
  assume a: "k < size_sb (sb s) \<and> \<not> bused s dv k \<and> (\<forall>j<k. bused s dv j)"
  then have "unat k < unat (size_sb (sb s))"
    by (simp add: word_less_nat_alt)
  then have k31: "unat k < 2 ^ 31"
    using assms by simp
  have "balloc s dv = Inr (k, balloc_at s dv k)"
    using a k31 by (intro balloc_first_free_nat) simp_all
  moreover have "\<forall>i<BSIZE. disk (balloc_at s dv k) (dv, k) i = 0"
    by (simp add: balloc_at_zero)
  moreover have "BBLOCK k (sb s) \<noteq> k \<longrightarrow> bused (balloc_at s dv k) dv k"
    by (simp add: balloc_at_bused)
  ultimately show "\<exists>s'. balloc s dv = Inr (k, s')
               \<and> (\<forall>i<BSIZE. disk s' (dv, k) i = 0)
               \<and> logw s' = logw s @ [(dv, BBLOCK k (sb s)), (dv, k)]
               \<and> (BBLOCK k (sb s) \<noteq> k \<longrightarrow> bused s' dv k)"
    using balloc_at_logw [of s dv k] by blast
next
  assume "\<forall>k. k < size_sb (sb s) \<longrightarrow> bused s dv k"
  with assms show "balloc s dv = Inl (Panic ''balloc: out of blocks'')"
    by (rule balloc_exhausted)
qed

lemma ex_bit_1F: "bit (0x1F :: u8) n = (n < 5)"
proof -
  have e: "(0x1F :: u8) = mask 5"
    by (simp add: mask_eq_exp_minus_1)
  show ?thesis
    unfolding e by (auto simp: bit_mask_iff)
qed

lemma ex_bit_FF: "n < 8 \<Longrightarrow> bit (0xFF :: u8) n"
proof -
  have e: "(0xFF :: u8) = mask 8"
    by (simp add: mask_eq_exp_minus_1)
  show "n < 8 \<Longrightarrow> bit (0xFF :: u8) n"
    unfolding e by (simp add: bit_mask_iff)
qed

lemma ex_BBLOCK: "unat k < 16 \<Longrightarrow> BBLOCK k ex_sb = 4"
proof -
  assume "unat k < 16"
  then have "unat (k div of_nat BPB) = 0"
    unfolding word_div_bpb by (simp add: BPB_def BSIZE_def)
  then have "k div of_nat BPB = 0"
    by (simp add: unat_eq_zero)
  then show ?thesis
    by (simp add: BBLOCK_def ex_sb_def)
qed

lemma ex_bused:
  assumes "unat k < 8"
  shows "bused ex_state 1 k = (unat k < 5)"
proof -
  have "BBLOCK k ex_sb = 4"
    using assms by (intro ex_BBLOCK) simp
  moreover have m: "unat k mod BPB div 8 = 0" "unat k mod 8 = unat k"
    using assms by (simp_all add: BPB_def BSIZE_def)
  ultimately have d: "disk ex_state (1, BBLOCK k (sb ex_state)) (unat k mod BPB div 8) = 0x1F"
    by (simp add: ex_state_def ex_disk_def)
  show ?thesis
    unfolding bused_def d m(2) by (rule ex_bit_1F)
qed

lemma ex_full_bused:
  assumes "unat k < 16"
  shows "bused ex_full_state 1 k"
proof -
  have b: "BBLOCK k ex_sb = 4"
    using assms by (rule ex_BBLOCK)
  have "unat k mod BPB div 8 = 0 \<or> unat k mod BPB div 8 = 1"
    using assms by (simp add: BPB_def BSIZE_def) linarith
  then have d: "disk ex_full_state (1, BBLOCK k (sb ex_full_state)) (unat k mod BPB div 8) = 0xFF"
    by (auto simp: ex_full_state_def ex_disk_def b)
  show ?thesis
    unfolding bused_def d by (rule ex_bit_FF) simp
qed

theorem balloc_lowest_free_witness:
  "(\<exists>s'. balloc ex_state 1 = Inr (5, s')
      \<and> (\<forall>i<BSIZE. disk s' (1, 5) i = 0)
      \<and> logw s' = logw ex_state @ [(1, BBLOCK 5 (sb ex_state)), (1, 5)]
      \<and> bused s' 1 5)
   \<and> balloc ex_full_state 1 = Inl (Panic ''balloc: out of blocks'')"
proof -
  have sz: "unat (size_sb (sb ex_state)) \<le> 2 ^ 31 - BPB" "unat (size_sb (sb ex_full_state)) \<le> 2 ^ 31 - BPB"
    by (simp_all add: ex_state_def ex_full_state_def ex_sb_def BPB_def BSIZE_def)
  have h1: "(5::u32) < size_sb (sb ex_state)"
    by (simp add: ex_state_def ex_sb_def)
  have h2: "\<not> bused ex_state 1 5"
    by (simp add: ex_bused)
  have h3: "\<forall>j<5. bused ex_state 1 j"
    by (simp add: ex_bused word_less_nat_alt)
  have h4: "BBLOCK 5 (sb ex_state) \<noteq> 5"
    by (simp add: ex_state_def ex_BBLOCK)
  have h5: "\<forall>k. k < size_sb (sb ex_full_state) \<longrightarrow> bused ex_full_state 1 k"
  proof (intro allI impI)
    fix k :: u32
    assume "k < size_sb (sb ex_full_state)"
    then have "unat k < 16"
      by (simp add: ex_full_state_def ex_sb_def word_less_nat_alt)
    then show "bused ex_full_state 1 k"
      by (rule ex_full_bused)
  qed
  from balloc_lowest_free [OF sz(1), of 1, THEN conjunct1, THEN spec, of 5] h1 h2 h3 h4
    balloc_lowest_free [OF sz(2), of 1, THEN conjunct2] h5
  show ?thesis
    by blast
qed

section \<open>What a successful allocation returns\<close>

lemma balloc_scan_SomeD:
  assumes "balloc_scan s dv b bi = Some (a, s')" "b mod BPB = 0" "b + BPB \<le> 2 ^ 32"
  shows "\<exists>j. j < BPB \<and> b + j < unat (size_sb (sb s)) \<and> a = of_nat (b + j)
    \<and> s' = balloc_mark s dv b j \<and> \<not> bused s dv (of_nat (b + j))"
  using assms
proof (induction s dv b bi rule: balloc_scan.induct)
  case (1 s dv b bi)
  from "1.prems"(1) have c: "bi < BPB \<and> b + bi < unat (size_sb (sb s))"
    by (subst (asm) balloc_scan.simps) (simp split: if_splits)
  then have "b + bi < 2 ^ 32"
    using "1.prems"(3) by simp
  then have bu: "bused s dv (of_nat (b + bi)) =
      (\<not> (bread s dv (BBLOCK (of_nat b) (sb s)) (bi div 8) AND push_bit (bi mod 8) 1 = 0))"
    unfolding bit_test using bused_of_nat [OF "1.prems"(2), of bi s dv] c by blast
  show ?case
  proof (cases "bread s dv (BBLOCK (of_nat b) (sb s)) (bi div 8) AND push_bit (bi mod 8) 1 = 0")
    case True
    then have "a = of_nat (b + bi) \<and> s' = balloc_mark s dv b bi"
      using "1.prems"(1) c by (subst (asm) balloc_scan.simps) (simp del: of_nat_add)
    then show ?thesis
      using c bu True by blast
  next
    case False
    then have "balloc_scan s dv b (Suc bi) = Some (a, s')"
      using "1.prems"(1) c by (subst (asm) balloc_scan.simps) (simp del: of_nat_add)
    then show ?thesis
      by (rule "1.IH" [OF c False _ "1.prems"(2,3)])
  qed
qed

lemma balloc_from_InrD:
  assumes "balloc_from s dv b = Inr (a, s')" "b mod BPB = 0" "b < 2 ^ 31"
  shows "a < size_sb (sb s) \<and> \<not> bused s dv a \<and> s' = balloc_at s dv a"
  using assms
proof (induction s dv b rule: balloc_from.induct)
  case (1 s dv b)
  from "1.prems"(1) have c: "b < unat (size_sb (sb s))"
    by (subst (asm) balloc_from.simps) (simp split: if_splits)
  have b32: "b + BPB \<le> 2 ^ 32"
    using "1.prems"(3) by (simp add: BPB_def BSIZE_def)
  show ?case
  proof (cases "balloc_scan s dv b 0")
    case None
    then have lt: "b + BPB < 2 ^ 31" and rec: "balloc_from s dv (b + BPB) = Inr (a, s')"
      using "1.prems"(1) c by (subst (asm) balloc_from.simps, simp split: if_splits)+
    have m: "(b + BPB) mod BPB = 0"
      using "1.prems"(2) by simp
    show ?thesis
      by (rule "1.IH" [OF c None lt rec m lt])
  next
    case (Some r)
    then have r: "balloc_scan s dv b 0 = Some (a, s')"
      using "1.prems"(1) c by (subst (asm) balloc_from.simps) simp
    from balloc_scan_SomeD [OF r "1.prems"(2) b32] obtain j where
      j: "j < BPB" "b + j < unat (size_sb (sb s))" "a = of_nat (b + j)"
        "s' = balloc_mark s dv b j" "\<not> bused s dv (of_nat (b + j))"
      by blast
    have "b + j < 2 ^ 32"
      using j(1) b32 by simp
    then have ua: "unat a = b + j"
      unfolding j(3) by (rule unat_of_nat32)
    have jm: "(b + j) mod BPB = j"
      using j(1) "1.prems"(2) by (metis mod_add_left_eq add_cancel_right_left mod_less)
    have "balloc_at s dv a = balloc_mark s dv b j"
      unfolding balloc_at_def ua jm by simp
    then show ?thesis
      using j ua by (simp add: word_less_nat_alt del: of_nat_add)
  qed
qed

lemma balloc_InrD:
  "balloc s dv = Inr (a, s') \<Longrightarrow> a < size_sb (sb s) \<and> \<not> bused s dv a \<and> s' = balloc_at s dv a"
proof -
  assume "balloc s dv = Inr (a, s')"
  then have "balloc_from s dv 0 = Inr (a, s')"
    by (simp add: balloc_def)
  moreover have "(0::nat) mod BPB = 0" "(0::nat) < 2 ^ 31"
    by simp_all
  ultimately show ?thesis
    by (rule balloc_from_InrD)
qed

section \<open>The invariant under allocation and translation\<close>

lemma is_index_owned: "is_index s ip b \<Longrightarrow> owned s ip b"
proof -
  assume a: "is_index s ip b"
  then consider (i) "b = addrs ip ! NDIRECT" "b \<noteq> 0" | (d) "b = addrs ip ! (NDIRECT + 1)" "b \<noteq> 0"
    | (x) i where "addrs ip ! (NDIRECT + 1) \<noteq> 0" "i < NINDIRECT"
        "b = ent s (dev ip) (addrs ip ! (NDIRECT + 1)) i" "b \<noteq> 0"
    by (auto simp: is_index_def)
  then show ?thesis
  proof cases
    case i
    then have "live s ip (Slot NDIRECT) \<and> cval s ip (Slot NDIRECT) = b"
      by (simp add: live_def)
    then show ?thesis unfolding owned_def by blast
  next
    case d
    then have "live s ip (Slot (NDIRECT + 1)) \<and> cval s ip (Slot (NDIRECT + 1)) = b"
      by (simp add: live_def)
    then show ?thesis unfolding owned_def by blast
  next
    case x
    then have "is_index s ip (addrs ip ! (NDIRECT + 1))"
      by (simp add: is_index_def)
    then have "live s ip (Ent (addrs ip ! (NDIRECT + 1)) i) \<and> cval s ip (Ent (addrs ip ! (NDIRECT + 1)) i) = b"
      using x by (simp add: live_def)
    then show ?thesis unfolding owned_def by blast
  qed
qed

text \<open>Cells and their values depend only on the address table and on the index blocks.\<close>

lemma cells_agree:
  assumes "addrs ip' = addrs ip" "dev ip' = dev ip"
    and "\<forall>b. is_index s ip b \<longrightarrow> disk s' (dev ip, b) = disk s (dev ip, b)"
  shows "is_index s' ip' = is_index s ip" "cell_ok s' ip' = cell_ok s ip"
    "\<And>c. cell_ok s ip c \<Longrightarrow> cval s' ip' c = cval s ip c"
    "live s' ip' = live s ip" "owned s' ip' = owned s ip"
proof -
  have e: "ent s' (dev ip) b i = ent s (dev ip) b i" if "is_index s ip b" for b i
    using assms(3) that by (simp add: ent_def bread_def)
  have D: "is_index s ip (addrs ip ! (NDIRECT + 1))" if "addrs ip ! (NDIRECT + 1) \<noteq> 0"
    using that by (simp add: is_index_def)
  show ii: "is_index s' ip' = is_index s ip"
    using e [OF D] by (auto simp: fun_eq_iff is_index_def assms(1,2))
  show ok: "cell_ok s' ip' = cell_ok s ip"
  proof (rule ext)
    fix c show "cell_ok s' ip' c = cell_ok s ip c"
      by (cases c) (simp_all add: ii)
  qed
  show cv: "cval s' ip' c = cval s ip c" if "cell_ok s ip c" for c
    using that e by (cases c) (simp_all add: assms(1,2))
  show lv: "live s' ip' = live s ip"
    using cv by (auto simp: fun_eq_iff live_def ok)
  show "owned s' ip' = owned s ip"
    using cv by (auto simp: fun_eq_iff owned_def lv) (metis live_def)+
qed

lemma fs_inv_frame:
  assumes inv: "fs_inv s ip"
    and eq: "sb s' = sb s" "dev ip' = dev ip" "inum ip' = inum ip" "addrs ip' = addrs ip"
    and idx: "\<forall>b. is_index s ip b \<longrightarrow> disk s' (dev ip, b) = disk s (dev ip, b)"
    and mk: "\<forall>j. marked s (dev ip) j \<longrightarrow> marked s' (dev ip) j"
  shows "fs_inv s' ip'"
proof -
  note ag = cells_agree [OF eq(4,2) idx]
  have bm: "is_bitmap s' = is_bitmap s"
    by (simp add: fun_eq_iff is_bitmap_def eq(1))
  have cv: "cval s' ip' c = cval s ip c" if "live s ip c" for c
    using that ag(3) by (simp add: live_def)
  show ?thesis
    using inv mk unfolding fs_inv_def ag(4,5) bm eq
    by (auto simp: cv)
qed

lemma rd_wr_u32_same: "rd_u32 (wr_u32 d p v) p = v"
  unfolding rd_u32_def wr_u32_def
proof (rule bit_word_eqI)
  fix n assume "n < LENGTH(32)"
  then show "bit (ucast ((d(p := ucast v, p + 1 := ucast (drop_bit 8 v),
        p + 2 := ucast (drop_bit 16 v), p + 3 := ucast (drop_bit 24 v))) p) OR
      push_bit 8 (ucast ((d(p := ucast v, p + 1 := ucast (drop_bit 8 v),
        p + 2 := ucast (drop_bit 16 v), p + 3 := ucast (drop_bit 24 v))) (p + 1))) OR
      push_bit 16 (ucast ((d(p := ucast v, p + 1 := ucast (drop_bit 8 v),
        p + 2 := ucast (drop_bit 16 v), p + 3 := ucast (drop_bit 24 v))) (p + 2))) OR
      push_bit 24 (ucast ((d(p := ucast v, p + 1 := ucast (drop_bit 8 v),
        p + 2 := ucast (drop_bit 16 v), p + 3 := ucast (drop_bit 24 v))) (p + 3))) :: u32) n = bit v n"
    by (cases "n < 8"; cases "n < 16"; cases "n < 24") (auto simp: bit_simps)
qed

lemma rd_wr_u32_other: "p + 4 \<le> q \<or> q + 4 \<le> p \<Longrightarrow> rd_u32 (wr_u32 d p v) q = rd_u32 d q"
  unfolding rd_u32_def wr_u32_def by auto

lemma rd_u32_zero: "\<forall>i<BSIZE. d i = 0 \<Longrightarrow> j < NINDIRECT \<Longrightarrow> rd_u32 d (4 * j) = 0"
  by (simp add: rd_u32_def BSIZE_def NINDIRECT_def)

lemma ent_write:
  "j' < NINDIRECT \<Longrightarrow> j < NINDIRECT \<Longrightarrow>
   ent (log_write (buf_set s dv b (wr_u32 (bread s dv b) (4 * j) a)) dv b) dv' b' j' =
     (if dv' = dv \<and> b' = b \<and> j' = j then a else ent s dv' b' j')"
proof -
  have "rd_u32 (wr_u32 d (4 * j) a) (4 * j') = rd_u32 d (4 * j')" if "j' \<noteq> j" for d
  proof -
    have "4 * j + 4 \<le> 4 * j' \<or> 4 * j' + 4 \<le> 4 * j"
      using that by arith
    then show ?thesis
      by (rule rd_wr_u32_other)
  qed
  then show ?thesis
    by (auto simp: ent_def bread_def rd_wr_u32_same)
qed

lemma marked_frame:
  assumes "sb s' = sb s" "\<forall>m. is_bitmap s m \<longrightarrow> disk s' (dv, m) = disk s (dv, m)"
  shows "marked s' dv j = marked s dv j"
proof (cases "j < size_sb (sb s)")
  case True
  then have "is_bitmap s (BBLOCK j (sb s))"
    unfolding is_bitmap_def by blast
  then show ?thesis
    using assms by (simp add: marked_def bused_def)
next
  case False
  then show ?thesis
    using assms(1) by (simp add: marked_def)
qed

text \<open>Allocation keeps the invariant and hands out a block that is new to the file.\<close>

lemma fs_inv_alloc:
  assumes inv: "fs_inv s ip" and a: "a < size_sb (sb s)" "\<not> bused s (dev ip) a"
  shows "fs_inv (balloc_at s (dev ip) a) ip"
    and "is_index (balloc_at s (dev ip) a) ip = is_index s ip"
    and "cell_ok (balloc_at s (dev ip) a) ip = cell_ok s ip"
    and "\<And>c. cell_ok s ip c \<Longrightarrow> cval (balloc_at s (dev ip) a) ip c = cval s ip c"
    and "live (balloc_at s (dev ip) a) ip = live s ip"
    and "owned (balloc_at s (dev ip) a) ip = owned s ip"
    and "\<not> owned s ip a" "a \<noteq> 0" "\<not> is_bitmap s a" "a \<noteq> IBLOCK (inum ip) (sb s)"
    and "marked (balloc_at s (dev ip) a) (dev ip) a"
    and "\<And>j. j < NINDIRECT \<Longrightarrow> ent (balloc_at s (dev ip) a) (dev ip) a j = 0"
    and "\<And>b. owned s ip b \<Longrightarrow> disk (balloc_at s (dev ip) a) (dev ip, b) = disk s (dev ip, b)"
proof -
  let ?s = "balloc_at s (dev ip) a"
  have nm: "\<not> marked s (dev ip) a"
    using a(2) by (simp add: marked_def)
  show no: "\<not> owned s ip a" and nz: "a \<noteq> 0" and nb: "\<not> is_bitmap s a"
    and ni: "a \<noteq> IBLOCK (inum ip) (sb s)"
    using inv nm unfolding fs_inv_def by blast+
  have bb: "is_bitmap s (BBLOCK a (sb s))"
    using a(1) unfolding is_bitmap_def by blast
  have fr: "disk ?s (dev ip, b) = disk s (dev ip, b)" if "owned s ip b" for b
  proof -
    have "\<not> is_bitmap s b" "marked s (dev ip) b"
      using inv that unfolding fs_inv_def by blast+
    then have "(dev ip, b) \<noteq> (dev ip, BBLOCK a (sb s))" "(dev ip, b) \<noteq> (dev ip, a)"
      using bb nm by auto
    then show ?thesis
      by (rule balloc_at_frame)
  qed
  then show "\<And>b. owned s ip b \<Longrightarrow> disk ?s (dev ip, b) = disk s (dev ip, b)" .
  have idx: "\<forall>b. is_index s ip b \<longrightarrow> disk ?s (dev ip, b) = disk s (dev ip, b)"
    using fr is_index_owned by blast
  note ag = cells_agree [OF refl refl idx]
  show "is_index ?s ip = is_index s ip" "cell_ok ?s ip = cell_ok s ip"
    "\<And>c. cell_ok s ip c \<Longrightarrow> cval ?s ip c = cval s ip c" "live ?s ip = live s ip"
    "owned ?s ip = owned s ip"
    using ag by simp_all
  have mk: "marked ?s (dev ip) j = (marked s (dev ip) j \<or> j = a)" if "j < size_sb (sb s)" for j
  proof -
    have "is_bitmap s (BBLOCK j (sb s))"
      using that unfolding is_bitmap_def by blast
    then have "marked s (dev ip) (BBLOCK j (sb s))"
      using inv unfolding fs_inv_def by blast
    then have "BBLOCK j (sb s) \<noteq> a"
      using nm by auto
    then show ?thesis
      using that balloc_at_bused [of j s a "dev ip" "dev ip"] by (auto simp: marked_def)
  qed
  show "marked ?s (dev ip) a"
    using mk [OF a(1)] by simp
  have "\<forall>j. marked s (dev ip) j \<longrightarrow> marked ?s (dev ip) j"
    using mk by (auto simp: marked_def)
  from fs_inv_frame [OF inv _ refl refl refl idx this] show "fs_inv ?s ip"
    by simp
  show "ent ?s (dev ip) a j = 0" if "j < NINDIRECT" for j
  proof -
    have "\<forall>i<BSIZE. bread ?s (dev ip) a i = 0"
      by (simp add: bread_def balloc_at_zero)
    then show ?thesis
      unfolding ent_def using that by (rule rd_u32_zero)
  qed
qed

lemma extends_refl: "extends s ip s ip"
  by (simp add: extends_def live_def)

lemma extends_is_index:
  assumes "extends s ip s' ip'" "is_index s ip b"
  shows "is_index s' ip' b"
proof -
  from assms(2) consider (i) "b = addrs ip ! NDIRECT" "b \<noteq> 0" | (d) "b = addrs ip ! (NDIRECT + 1)" "b \<noteq> 0"
    | (x) i where "addrs ip ! (NDIRECT + 1) \<noteq> 0" "i < NINDIRECT"
        "b = ent s (dev ip) (addrs ip ! (NDIRECT + 1)) i" "b \<noteq> 0"
    by (auto simp: is_index_def)
  then show ?thesis
  proof cases
    case i
    then have "live s ip (Slot NDIRECT)"
      by (simp add: live_def)
    then have "cval s' ip' (Slot NDIRECT) = cval s ip (Slot NDIRECT)"
      using assms(1) unfolding extends_def by blast
    then show ?thesis
      using i by (simp add: is_index_def)
  next
    case d
    then have "live s ip (Slot (NDIRECT + 1))"
      by (simp add: live_def)
    then have "cval s' ip' (Slot (NDIRECT + 1)) = cval s ip (Slot (NDIRECT + 1))"
      using assms(1) unfolding extends_def by blast
    then show ?thesis
      using d by (simp add: is_index_def)
  next
    case x
    let ?D = "addrs ip ! (NDIRECT + 1)"
    have l1: "live s ip (Slot (NDIRECT + 1))"
      using x(1) by (simp add: live_def)
    have "is_index s ip ?D"
      using x(1) by (simp add: is_index_def)
    then have l2: "live s ip (Ent ?D i)"
      using x by (simp add: live_def)
    have "cval s' ip' (Slot (NDIRECT + 1)) = cval s ip (Slot (NDIRECT + 1))"
      "cval s' ip' (Ent ?D i) = cval s ip (Ent ?D i)"
      using assms(1) l1 l2 unfolding extends_def by blast+
    moreover have "dev ip' = dev ip"
      using assms(1) unfolding extends_def by (metis inode.select_convs(1) inode.surjective inode.update_convs(11))
    ultimately show ?thesis
      using x by (auto simp: is_index_def)
  qed
qed

lemma extends_dev: "extends s ip s' ip' \<Longrightarrow> dev ip' = dev ip \<and> inum ip' = inum ip
    \<and> size_i ip' = size_i ip \<and> type ip' = type ip"
proof -
  assume "extends s ip s' ip'"
  then have "ip' = ip\<lparr>addrs := addrs ip'\<rparr>"
    by (simp add: extends_def)
  then show ?thesis
    by (metis inode.select_convs(1,2,6,10) inode.surjective inode.update_convs(11))
qed

lemma extends_live:
  assumes "extends s ip s' ip'" "live s ip c"
  shows "live s' ip' c" "cval s' ip' c = cval s ip c"
  using assms unfolding extends_def live_def by metis+

lemma extends_owned:
  assumes "extends s ip s' ip'" "owned s ip b"
  shows "owned s' ip' b"
  using assms extends_live unfolding owned_def by metis

lemma extends_trans:
  assumes e1: "extends s ip s1 ip1" and e2: "extends s1 ip1 s2 ip2" and inv1: "fs_inv s1 ip1"
  shows "extends s ip s2 ip2"
proof -
  note d1 = extends_dev [OF e1]
  have "ip1 = ip\<lparr>addrs := addrs ip1\<rparr>" "ip2 = ip1\<lparr>addrs := addrs ip2\<rparr>"
    using e1 e2 by (simp_all add: extends_def)
  then have "ip2 = (ip\<lparr>addrs := addrs ip1\<rparr>)\<lparr>addrs := addrs ip2\<rparr>"
    by simp
  then have ipeq: "ip2 = ip\<lparr>addrs := addrs ip2\<rparr>"
    by simp
  have lv: "cell_ok s2 ip2 c \<and> cval s2 ip2 c = cval s ip c" if "live s ip c" for c
  proof -
    have "live s1 ip1 c" "cval s1 ip1 c = cval s ip c"
      using extends_live [OF e1 that] by simp_all
    then show ?thesis
      using e2 unfolding extends_def by metis
  qed
  have dk: "disk s2 (dev ip, b) = disk s (dev ip, b)" if "owned s ip b" "\<not> is_index s ip b" for b
  proof -
    have o1: "owned s1 ip1 b"
      using extends_owned [OF e1 that(1)] .
    have "\<not> is_index s1 ip1 b"
    proof
      assume ix: "is_index s1 ip1 b"
      from that(1) obtain c where c: "live s ip c" "cval s ip c = b"
        unfolding owned_def by blast
      then have c1: "live s1 ip1 c" "cval s1 ip1 c = b"
        using extends_live [OF e1 c(1)] by simp_all
      from ix consider (i) "b = addrs ip1 ! NDIRECT" | (d) "b = addrs ip1 ! (NDIRECT + 1)"
        | (x) i where "addrs ip1 ! (NDIRECT + 1) \<noteq> 0" "i < NINDIRECT"
            "b = ent s1 (dev ip1) (addrs ip1 ! (NDIRECT + 1)) i"
        by (auto simp: is_index_def)
      then show False
      proof cases
        case i
        have nz: "b \<noteq> 0" using ix by (simp add: is_index_def)
        then have "live s1 ip1 (Slot NDIRECT)" "cval s1 ip1 (Slot NDIRECT) = b"
          using i by (simp_all add: live_def)
        then have "c = Slot NDIRECT"
          using inv1 c1 unfolding fs_inv_def by metis
        then have "b = addrs ip ! NDIRECT"
          using c(2) by simp
        then show False
          using that(2) nz by (simp add: is_index_def)
      next
        case d
        have nz: "b \<noteq> 0" using ix by (simp add: is_index_def)
        then have "live s1 ip1 (Slot (NDIRECT + 1))" "cval s1 ip1 (Slot (NDIRECT + 1)) = b"
          using d by (simp_all add: live_def)
        then have "c = Slot (NDIRECT + 1)"
          using inv1 c1 unfolding fs_inv_def by metis
        then have "b = addrs ip ! (NDIRECT + 1)"
          using c(2) by simp
        then show False
          using that(2) nz by (simp add: is_index_def)
      next
        case x
        let ?D = "addrs ip1 ! (NDIRECT + 1)"
        have nz: "b \<noteq> 0" using ix by (simp add: is_index_def)
        have "is_index s1 ip1 ?D"
          using x(1) by (simp add: is_index_def)
        then have "live s1 ip1 (Ent ?D i)" "cval s1 ip1 (Ent ?D i) = b"
          using x nz by (simp_all add: live_def)
        then have ce: "c = Ent ?D i"
          using inv1 c1 unfolding fs_inv_def by metis
        then have ok: "is_index s ip ?D" "b = ent s (dev ip) ?D i"
          using c by (simp_all add: live_def)
        have "?D = addrs ip ! (NDIRECT + 1)"
        proof -
          from ok(1) have "owned s ip ?D"
            by (rule is_index_owned)
          then obtain c' where c': "live s ip c'" "cval s ip c' = ?D"
            unfolding owned_def by blast
          then have "live s1 ip1 c'" "cval s1 ip1 c' = ?D"
            using extends_live [OF e1 c'(1)] by simp_all
          moreover have "live s1 ip1 (Slot (NDIRECT + 1))" "cval s1 ip1 (Slot (NDIRECT + 1)) = ?D"
            using x(1) by (simp_all add: live_def)
          ultimately have "c' = Slot (NDIRECT + 1)"
            using inv1 unfolding fs_inv_def by metis
          then show ?thesis
            using c'(2) by simp
        qed
        then show False
          using that(2) ok x(1,2) nz by (auto simp: is_index_def)
      qed
    qed
    then have "disk s2 (dev ip1, b) = disk s1 (dev ip1, b)"
      using e2 o1 unfolding extends_def by blast
    moreover have "disk s1 (dev ip, b) = disk s (dev ip, b)"
      using e1 that unfolding extends_def by blast
    ultimately show ?thesis
      using d1 by simp
  qed
  show ?thesis
    unfolding extends_def using e1 e2 ipeq lv dk by (simp add: extends_def)
qed

lemma store_slot:
  assumes inv: "fs_inv s ip" and i: "i < NDIRECT + 2" and z: "addrs ip ! i = 0"
    and fr: "fresh s ip a"
  defines "ip' \<equiv> ip\<lparr>addrs := (addrs ip)[i := a]\<rparr>"
  shows "fs_inv s ip'" and "extends s ip s ip'" and "live s ip' (Slot i)"
proof -
  have len: "length (addrs ip) = NDIRECT + 2"
    using inv by (simp add: fs_inv_def)
  have A: "addrs ip' ! k = (if k = i then a else addrs ip ! k)" for k
    using i len by (simp add: ip'_def nth_list_update)
  have dv: "dev ip' = dev ip" "inum ip' = inum ip"
    by (simp_all add: ip'_def)
  have nz: "a \<noteq> 0" and ea: "\<And>j. j < NINDIRECT \<Longrightarrow> ent s (dev ip) a j = 0"
    and no: "\<not> owned s ip a"
    using fr by (simp_all add: fresh_def)
  have II: "is_index s ip' b = (is_index s ip b \<or> (NDIRECT \<le> i \<and> b = a))" for b
  proof -
    consider (lo) "i < NDIRECT" | (i11) "i = NDIRECT" | (i12) "i = NDIRECT + 1"
      using i by linarith
    then show ?thesis
    proof cases
      case lo
      then show ?thesis
        by (simp add: is_index_def A dv)
    next
      case i11
      then show ?thesis
        using z nz by (auto simp: is_index_def A dv)
    next
      case i12
      then show ?thesis
        using z nz ea by (auto simp: is_index_def A dv)
    qed
  qed
  have OK: "cell_ok s ip' c = (cell_ok s ip c \<or> (NDIRECT \<le> i \<and> (\<exists>j<NINDIRECT. c = Ent a j)))" for c
    by (cases c) (auto simp: II)
  have CV: "cval s ip' c = (if c = Slot i then a else cval s ip c)" for c
    by (cases c) (simp_all add: A dv)
  have LV: "live s ip' c = (live s ip c \<or> c = Slot i)" for c
  proof (cases "c = Slot i")
    case True
    then show ?thesis
      using i nz by (simp add: live_def A)
  next
    case False
    have "\<not> (cval s ip c \<noteq> 0 \<and> (\<exists>j<NINDIRECT. c = Ent a j))"
      using ea by auto
    then show ?thesis
      using False by (auto simp: live_def CV OK)
  qed
  have nl: "\<not> live s ip (Slot i)"
    using z by (simp add: live_def)
  have OW: "owned s ip' b = (owned s ip b \<or> b = a)" for b
  proof
    assume "owned s ip' b"
    then obtain c where c: "live s ip' c" "cval s ip' c = b"
      unfolding owned_def by blast
    then show "owned s ip b \<or> b = a"
      unfolding owned_def LV CV by (cases "c = Slot i") auto
  next
    assume "owned s ip b \<or> b = a"
    then show "owned s ip' b"
    proof
      assume "owned s ip b"
      then obtain c where c: "live s ip c" "cval s ip c = b"
        unfolding owned_def by blast
      then have "c \<noteq> Slot i"
        using nl by auto
      then have "live s ip' c \<and> cval s ip' c = b"
        using c by (simp add: LV CV A)
      then show ?thesis
        unfolding owned_def by blast
    next
      assume "b = a"
      then have "live s ip' (Slot i) \<and> cval s ip' (Slot i) = b"
        by (simp add: LV A)
      then show ?thesis
        unfolding owned_def by blast
    qed
  qed
  show "live s ip' (Slot i)"
    by (simp add: LV)
  show "extends s ip s ip'"
    unfolding extends_def
  proof (intro conjI allI impI)
    show "sb s = sb s" ..
    show "ip' = ip\<lparr>addrs := addrs ip'\<rparr>"
      by (simp add: ip'_def)
    fix c assume l: "live s ip c"
    then have "c \<noteq> Slot i"
      using nl by auto
    then show "cell_ok s ip' c" "cval s ip' c = cval s ip c"
      using l by (simp_all add: OK CV live_def)
  next
    fix b show "disk s (dev ip, b) = disk s (dev ip, b)" ..
  qed
  show "fs_inv s ip'"
    unfolding fs_inv_def
  proof (intro conjI allI impI)
    show "length (addrs ip') = NDIRECT + 2"
      using len by (simp add: ip'_def)
  next
    fix c c'
    assume h: "live s ip' c \<and> live s ip' c' \<and> cval s ip' c = cval s ip' c'"
    show "c = c'"
    proof (cases "c = Slot i"; cases "c' = Slot i")
      assume "c = Slot i" "c' = Slot i"
      then show ?thesis by simp
    next
      assume c: "c = Slot i" "c' \<noteq> Slot i"
      then have "live s ip c'" "cval s ip c' = a"
        using h by (simp_all add: LV CV A)
      then show ?thesis
        using no unfolding owned_def by blast
    next
      assume c: "c \<noteq> Slot i" "c' = Slot i"
      then have "live s ip c" "cval s ip c = a"
        using h by (simp_all add: LV CV A)
      then show ?thesis
        using no unfolding owned_def by blast
    next
      assume c: "c \<noteq> Slot i" "c' \<noteq> Slot i"
      then have "live s ip c \<and> live s ip c' \<and> cval s ip c = cval s ip c'"
        using h by (simp add: LV CV A)
      then show ?thesis
        using inv unfolding fs_inv_def by blast
    qed
  next
    fix b assume "owned s ip' b"
    then have "owned s ip b \<or> b = a"
      by (simp add: OW)
    then show "marked s (dev ip') b" "\<not> is_bitmap s b" "b \<noteq> IBLOCK (inum ip') (sb s)"
      using inv fr unfolding fs_inv_def fresh_def dv by blast+
  next
    fix m assume "is_bitmap s m"
    then show "marked s (dev ip') m"
      using inv unfolding fs_inv_def dv by blast
  next
    show "marked s (dev ip') (IBLOCK (inum ip') (sb s))" "\<not> is_bitmap s (IBLOCK (inum ip') (sb s))"
      "marked s (dev ip') 0"
      using inv unfolding fs_inv_def dv by blast+
  qed
qed

lemma store_ent:
  assumes inv: "fs_inv s ip" and b: "is_index s ip b" and j: "j < NINDIRECT"
    and z: "ent s (dev ip) b j = 0" and fr: "fresh s ip a"
  defines "s' \<equiv> log_write (buf_set s (dev ip) b (wr_u32 (bread s (dev ip) b) (4 * j) a)) (dev ip) b"
  shows "fs_inv s' ip" and "extends s ip s' ip" and "live s' ip (Ent b j)"
    and "cval s' ip (Ent b j) = a"
proof -
  let ?D = "addrs ip ! (NDIRECT + 1)"
  have nz: "a \<noteq> 0" and ea: "\<And>k. k < NINDIRECT \<Longrightarrow> ent s (dev ip) a k = 0"
    and no: "\<not> owned s ip a"
    using fr by (simp_all add: fresh_def)
  have ob: "owned s ip b"
    using b by (rule is_index_owned)
  have ab: "a \<noteq> b"
    using ob no by auto
  have bz: "b \<noteq> 0"
    using b by (simp add: is_index_def)
  have sbeq: "sb s' = sb s"
    by (simp add: s'_def)
  have E: "ent s' dv' b' k = (if dv' = dev ip \<and> b' = b \<and> k = j then a else ent s dv' b' k)"
    if "k < NINDIRECT" for dv' b' k
    unfolding s'_def using that j by (rule ent_write)
  have dk: "disk s' p = disk s p" if "p \<noteq> (dev ip, b)" for p
    using that by (simp add: s'_def)
  have II: "is_index s' ip b'' = (is_index s ip b'' \<or> (b = ?D \<and> b'' = a))" for b''
  proof (cases "b = ?D")
    case True
    have "(\<exists>k<NINDIRECT. b'' = ent s' (dev ip) ?D k) =
        (b'' = a \<or> (\<exists>k<NINDIRECT. b'' = ent s (dev ip) ?D k))" if "b'' \<noteq> 0"
    proof
      assume "\<exists>k<NINDIRECT. b'' = ent s' (dev ip) ?D k"
      then obtain k where "k < NINDIRECT" "b'' = ent s' (dev ip) ?D k"
        by blast
      then show "b'' = a \<or> (\<exists>k<NINDIRECT. b'' = ent s (dev ip) ?D k)"
        using E [of k "dev ip" ?D] by (auto split: if_splits)
    next
      assume "b'' = a \<or> (\<exists>k<NINDIRECT. b'' = ent s (dev ip) ?D k)"
      then show "\<exists>k<NINDIRECT. b'' = ent s' (dev ip) ?D k"
      proof
        assume "b'' = a"
        then have "b'' = ent s' (dev ip) ?D j"
          using E [OF j, of "dev ip" ?D] True by simp
        then show ?thesis using j by blast
      next
        assume "\<exists>k<NINDIRECT. b'' = ent s (dev ip) ?D k"
        then obtain k where k: "k < NINDIRECT" "b'' = ent s (dev ip) ?D k"
          by blast
        then have "k \<noteq> j"
          using z True that by auto
        then have "b'' = ent s' (dev ip) ?D k"
          using E [OF k(1), of "dev ip" ?D] k(2) by simp
        then show ?thesis using k(1) by blast
      qed
    qed
    then show ?thesis
      using True bz nz by (auto simp: is_index_def)
  next
    case False
    then have "ent s' (dev ip) ?D k = ent s (dev ip) ?D k" if "k < NINDIRECT" for k
      using E [OF that, of "dev ip" ?D] by simp
    then show ?thesis
      using False by (auto simp: is_index_def)
  qed
  have OK: "cell_ok s' ip c = (cell_ok s ip c \<or> (b = ?D \<and> (\<exists>k<NINDIRECT. c = Ent a k)))" for c
    by (cases c) (auto simp: II)
  have CV: "cval s' ip c = (if c = Ent b j then a else cval s ip c)"
    if "cell_ok s' ip c" for c
  proof (cases c)
    case (Slot k)
    then show ?thesis by simp
  next
    case (Ent b' k)
    then have "k < NINDIRECT"
      using that by simp
    then show ?thesis
      using E [of k "dev ip" b'] Ent by simp
  qed
  have okb: "cell_ok s ip (Ent b j)"
    using b j by simp
  have nl: "\<not> live s ip (Ent b j)"
    using z by (simp add: live_def)
  have cb0: "cval s' ip (Ent b j) = a"
    using E [OF j, of "dev ip" b] by simp
  have okb': "cell_ok s' ip (Ent b j)"
    using okb OK [of "Ent b j"] by blast
  have lb0: "live s' ip (Ent b j)"
    unfolding live_def using okb' cb0 nz by simp
  have LV: "live s' ip c = (live s ip c \<or> c = Ent b j)" for c
  proof (cases "c = Ent b j")
    case True
    then show ?thesis
      using lb0 by simp
  next
    case False
    show ?thesis
    proof (cases "cell_ok s' ip c")
      case True
      have "cval s ip c = 0" if "\<exists>k<NINDIRECT. c = Ent a k"
        using that ea by auto
      then show ?thesis
        using True False CV [OF True] by (auto simp: live_def OK)
    next
      case nok: False
      then show ?thesis
        using False by (auto simp: live_def OK)
    qed
  qed
  show lb: "live s' ip (Ent b j)"
    by (rule lb0)
  show cb: "cval s' ip (Ent b j) = a"
    by (rule cb0)
  have CVL: "cval s' ip c = cval s ip c" if "live s ip c" for c
  proof -
    have "cell_ok s' ip c" "c \<noteq> Ent b j"
      using that nl by (auto simp: OK live_def)
    then show ?thesis
      using CV by simp
  qed
  have OW: "owned s' ip b'' = (owned s ip b'' \<or> b'' = a)" for b''
  proof
    assume "owned s' ip b''"
    then obtain c where c: "live s' ip c" "cval s' ip c = b''"
      unfolding owned_def by blast
    show "owned s ip b'' \<or> b'' = a"
    proof (cases "c = Ent b j")
      case True
      then show ?thesis using c cb by simp
    next
      case False
      then have "live s ip c"
        using c by (simp add: LV)
      then show ?thesis
        using c CVL unfolding owned_def by auto
    qed
  next
    assume "owned s ip b'' \<or> b'' = a"
    then show "owned s' ip b''"
    proof
      assume "owned s ip b''"
      then obtain c where c: "live s ip c" "cval s ip c = b''"
        unfolding owned_def by blast
      then have "live s' ip c \<and> cval s' ip c = b''"
        using CVL by (simp add: LV)
      then show ?thesis
        unfolding owned_def by blast
    next
      assume "b'' = a"
      then show ?thesis
        using lb cb unfolding owned_def by blast
    qed
  qed
  have nbm: "\<not> is_bitmap s b"
    using inv ob unfolding fs_inv_def by blast
  have MK: "marked s' (dev ip) k = marked s (dev ip) k" for k
  proof (rule marked_frame [OF sbeq], intro allI impI)
    fix m assume "is_bitmap s m"
    then have "(dev ip, m) \<noteq> (dev ip, b)"
      using nbm by auto
    then show "disk s' (dev ip, m) = disk s (dev ip, m)"
      by (rule dk)
  qed
  have BM: "is_bitmap s' = is_bitmap s"
    by (simp add: fun_eq_iff is_bitmap_def sbeq)
  show "extends s ip s' ip"
    unfolding extends_def
  proof (intro conjI allI impI)
    show "sb s' = sb s" by (rule sbeq)
    show "ip = ip\<lparr>addrs := addrs ip\<rparr>" by simp
  next
    fix c assume l: "live s ip c"
    then show "cell_ok s' ip c"
      by (simp add: OK live_def)
    show "cval s' ip c = cval s ip c"
      using l by (rule CVL)
  next
    fix b'' assume "owned s ip b'' \<and> \<not> is_index s ip b''"
    then have "b'' \<noteq> b"
      using b by auto
    then show "disk s' (dev ip, b'') = disk s (dev ip, b'')"
      by (intro dk) simp
  qed
  show "fs_inv s' ip"
    unfolding fs_inv_def
  proof (intro conjI allI impI)
    show "length (addrs ip) = NDIRECT + 2"
      using inv by (simp add: fs_inv_def)
  next
    fix c c'
    assume h: "live s' ip c \<and> live s' ip c' \<and> cval s' ip c = cval s' ip c'"
    show "c = c'"
    proof (cases "c = Ent b j"; cases "c' = Ent b j")
      assume "c = Ent b j" "c' = Ent b j"
      then show ?thesis by simp
    next
      assume c: "c = Ent b j" "c' \<noteq> Ent b j"
      then have "live s ip c'"
        using h by (simp add: LV)
      moreover from this have "cval s ip c' = a"
        using h c cb CVL by simp
      ultimately show ?thesis
        using no unfolding owned_def by blast
    next
      assume c: "c \<noteq> Ent b j" "c' = Ent b j"
      then have "live s ip c"
        using h by (simp add: LV)
      moreover from this have "cval s ip c = a"
        using h c cb CVL by simp
      ultimately show ?thesis
        using no unfolding owned_def by blast
    next
      assume c: "c \<noteq> Ent b j" "c' \<noteq> Ent b j"
      then have "live s ip c" "live s ip c'"
        using h by (simp_all add: LV)
      moreover from this have "cval s ip c = cval s ip c'"
        using h CVL by simp
      ultimately show ?thesis
        using inv unfolding fs_inv_def by blast
    qed
  next
    fix b'' assume "owned s' ip b''"
    then have "owned s ip b'' \<or> b'' = a"
      by (simp add: OW)
    then show "marked s' (dev ip) b''" "\<not> is_bitmap s' b''" "b'' \<noteq> IBLOCK (inum ip) (sb s')"
      using inv fr unfolding fs_inv_def fresh_def MK BM sbeq by blast+
  next
    fix m assume "is_bitmap s' m"
    then show "marked s' (dev ip) m"
      using inv unfolding fs_inv_def MK BM by blast
  next
    show "marked s' (dev ip) (IBLOCK (inum ip) (sb s'))" "\<not> is_bitmap s' (IBLOCK (inum ip) (sb s'))"
      "marked s' (dev ip) 0"
      using inv unfolding fs_inv_def MK BM sbeq by blast+
  qed
qed

lemma alloc_fresh:
  assumes inv: "fs_inv s ip" and al: "balloc s (dev ip) = Inr (a, s1)"
  shows "fs_inv s1 ip" "extends s ip s1 ip" "fresh s1 ip a" "\<not> owned s ip a"
    "is_index s1 ip = is_index s ip" "\<And>c. cell_ok s ip c \<Longrightarrow> cval s1 ip c = cval s ip c"
    "\<forall>i<BSIZE. disk s1 (dev ip, a) i = 0"
proof -
  from balloc_InrD [OF al] have a: "a < size_sb (sb s)" "\<not> bused s (dev ip) a"
    and s1: "s1 = balloc_at s (dev ip) a"
    by simp_all
  note f = fs_inv_alloc [OF inv a, folded s1]
  show "fs_inv s1 ip" "\<not> owned s ip a" "is_index s1 ip = is_index s ip"
    "\<And>c. cell_ok s ip c \<Longrightarrow> cval s1 ip c = cval s ip c"
    using f by simp_all
  have sbeq: "sb s1 = sb s"
    by (simp add: s1)
  show "extends s ip s1 ip"
    unfolding extends_def using f(3,4,13) sbeq by (auto simp: live_def)
  have "is_bitmap s1 = is_bitmap s"
    by (simp add: fun_eq_iff is_bitmap_def sbeq)
  then show "fresh s1 ip a"
    unfolding fresh_def using f(6-12) sbeq by simp
  show "\<forall>i<BSIZE. disk s1 (dev ip, a) i = 0"
    by (simp add: s1 balloc_at_zero)
qed

lemma bmap_slot_inv:
  assumes inv: "fs_inv s ip" and i: "i < NDIRECT + 2"
    and bm: "bmap_slot s ip i = Inr (a, s', ip')"
  shows "fs_inv s' ip'" "extends s ip s' ip'" "live s' ip' (Slot i)" "addrs ip' ! i = a"
    "addrs ip ! i \<noteq> 0 \<Longrightarrow> s' = s \<and> ip' = ip"
    "addrs ip ! i = 0 \<Longrightarrow> \<not> owned s ip a \<and> (\<forall>k<BSIZE. disk s' (dev ip, a) k = 0)
       \<and> (\<forall>j<NINDIRECT. ent s' (dev ip) a j = 0)"
proof -
  have len: "length (addrs ip) = NDIRECT + 2"
    using inv by (simp add: fs_inv_def)
  show "addrs ip ! i \<noteq> 0 \<Longrightarrow> s' = s \<and> ip' = ip"
    using bm by (simp add: bmap_slot_def)
  have all: "fs_inv s' ip' \<and> extends s ip s' ip' \<and> live s' ip' (Slot i) \<and> addrs ip' ! i = a
     \<and> (addrs ip ! i = 0 \<longrightarrow> \<not> owned s ip a \<and> (\<forall>k<BSIZE. disk s' (dev ip, a) k = 0)
          \<and> (\<forall>j<NINDIRECT. ent s' (dev ip) a j = 0))"
  proof (cases "addrs ip ! i = 0")
    case False
    then have "s' = s" "ip' = ip" "a = addrs ip ! i"
      using bm by (auto simp: bmap_slot_def)
    then show ?thesis
      using inv False i by (simp add: extends_refl live_def)
  next
    case True
    then obtain al: "balloc s (dev ip) = Inr (a, s')" and ip': "ip' = ip\<lparr>addrs := (addrs ip)[i := a]\<rparr>"
      using bm by (auto simp: bmap_slot_def split: sum.splits)
    note f = alloc_fresh [OF inv al]
    note st = store_slot [OF f(1) i True f(3), folded ip']
    have "extends s ip s' ip'"
      using f(2) st(2) f(1) by (rule extends_trans)
    moreover have "addrs ip' ! i = a"
      using i len by (simp add: ip')
    moreover have "\<forall>j<NINDIRECT. ent s' (dev ip) a j = 0"
      using f(3) by (simp add: fresh_def)
    ultimately show ?thesis
      using st f(4,7) by simp
  qed
  then show "fs_inv s' ip'" "extends s ip s' ip'" "live s' ip' (Slot i)" "addrs ip' ! i = a"
    "addrs ip ! i = 0 \<Longrightarrow> \<not> owned s ip a \<and> (\<forall>k<BSIZE. disk s' (dev ip, a) k = 0)
       \<and> (\<forall>j<NINDIRECT. ent s' (dev ip) a j = 0)"
    by simp_all
qed

lemma bmap_entry_inv:
  assumes inv: "fs_inv s ip" and b: "is_index s ip b" and j: "j < NINDIRECT"
    and bm: "bmap_entry s (dev ip) b j = Inr (a, s')"
  shows "fs_inv s' ip" "extends s ip s' ip" "live s' ip (Ent b j)" "ent s' (dev ip) b j = a"
    "ent s (dev ip) b j \<noteq> 0 \<Longrightarrow> s' = s"
    "ent s (dev ip) b j = 0 \<Longrightarrow> \<not> owned s ip a \<and> (\<forall>k<BSIZE. disk s' (dev ip, a) k = 0)
       \<and> (\<forall>j<NINDIRECT. ent s' (dev ip) a j = 0)"
proof -
  show "ent s (dev ip) b j \<noteq> 0 \<Longrightarrow> s' = s"
    using bm by (simp add: bmap_entry_def ent_def)
  have all: "fs_inv s' ip \<and> extends s ip s' ip \<and> live s' ip (Ent b j) \<and> ent s' (dev ip) b j = a
     \<and> (ent s (dev ip) b j = 0 \<longrightarrow> \<not> owned s ip a \<and> (\<forall>k<BSIZE. disk s' (dev ip, a) k = 0)
          \<and> (\<forall>j<NINDIRECT. ent s' (dev ip) a j = 0))"
  proof (cases "ent s (dev ip) b j = 0")
    case False
    then have "s' = s" "a = ent s (dev ip) b j"
      using bm by (auto simp: bmap_entry_def ent_def)
    then show ?thesis
      using inv False b j by (simp add: extends_refl live_def)
  next
    case True
    then obtain s1 where al: "balloc s (dev ip) = Inr (a, s1)"
      and s': "s' = log_write (buf_set s1 (dev ip) b (wr_u32 (bread s1 (dev ip) b) (4 * j) a)) (dev ip) b"
      using bm by (auto simp: bmap_entry_def ent_def split: sum.splits)
    note f = alloc_fresh [OF inv al]
    have b1: "is_index s1 ip b"
      using b f(5) by simp
    have "cell_ok s ip (Ent b j)"
      using b j by simp
    from f(6) [OF this] have z1: "ent s1 (dev ip) b j = 0"
      using True by simp
    note st = store_ent [OF f(1) b1 j z1 f(3), folded s']
    have e: "extends s ip s' ip"
      using f(2) st(2) f(1) by (rule extends_trans)
    have "a \<noteq> b"
      using f(4) is_index_owned [OF b] by auto
    then have da: "disk s' (dev ip, a) = disk s1 (dev ip, a)"
      by (simp add: s')
    then have "\<forall>k<BSIZE. disk s' (dev ip, a) k = 0"
      using f(7) by simp
    moreover have "\<forall>j<NINDIRECT. ent s' (dev ip) a j = 0"
      using f(3) da by (simp add: fresh_def ent_def bread_def)
    ultimately show ?thesis
      using st e f(4) by simp
  qed
  then show "fs_inv s' ip" "extends s ip s' ip" "live s' ip (Ent b j)" "ent s' (dev ip) b j = a"
    "ent s (dev ip) b j = 0 \<Longrightarrow> \<not> owned s ip a \<and> (\<forall>k<BSIZE. disk s' (dev ip, a) k = 0)
       \<and> (\<forall>j<NINDIRECT. ent s' (dev ip) a j = 0)"
    by simp_all
qed

lemma bmap_tiers:
  "unat bn < NDIRECT \<Longrightarrow> bmap s ip bn = bmap_slot s ip (unat bn)"
  "NDIRECT \<le> unat bn \<Longrightarrow> unat bn < NDIRECT + NINDIRECT \<Longrightarrow>
     bmap s ip bn =
       (case bmap_slot s ip NDIRECT of
          Inl e \<Rightarrow> Inl e
        | Inr (addr, s1, ip1) \<Rightarrow>
            (case bmap_entry s1 (dev ip) addr (unat bn - NDIRECT) of
               Inl e \<Rightarrow> Inl e
             | Inr (addr1, s2) \<Rightarrow> Inr (addr1, s2, ip1)))"
  "NDIRECT + NINDIRECT \<le> unat bn \<Longrightarrow> unat bn < MAXFILE \<Longrightarrow>
     bmap s ip bn =
       (case bmap_slot s ip (NDIRECT + 1) of
          Inl e \<Rightarrow> Inl e
        | Inr (addr, s1, ip1) \<Rightarrow>
            (case bmap_entry s1 (dev ip) addr ((unat bn - NDIRECT - NINDIRECT) div NINDIRECT) of
               Inl e \<Rightarrow> Inl e
             | Inr (addr1, s2) \<Rightarrow>
                 (case bmap_entry s2 (dev ip) addr1 ((unat bn - NDIRECT - NINDIRECT) mod NINDIRECT) of
                    Inl e \<Rightarrow> Inl e
                  | Inr (addr2, s3) \<Rightarrow> Inr (addr2, s3, ip1))))"
proof -
  show "unat bn < NDIRECT \<Longrightarrow> bmap s ip bn = bmap_slot s ip (unat bn)"
    by (simp add: bmap_def)
next
  assume a: "NDIRECT \<le> unat bn" "unat bn < NDIRECT + NINDIRECT"
  then have u: "unat (bn - of_nat NDIRECT) = unat bn - NDIRECT"
    by (simp add: unat_sub_const)
  have c: "\<not> unat bn < NDIRECT" "unat bn - NDIRECT < NINDIRECT"
    using a by simp_all
  show "bmap s ip bn =
       (case bmap_slot s ip NDIRECT of
          Inl e \<Rightarrow> Inl e
        | Inr (addr, s1, ip1) \<Rightarrow>
            (case bmap_entry s1 (dev ip) addr (unat bn - NDIRECT) of
               Inl e \<Rightarrow> Inl e
             | Inr (addr1, s2) \<Rightarrow> Inr (addr1, s2, ip1)))"
    unfolding bmap_def Let_def u using c by simp
next
  assume a: "NDIRECT + NINDIRECT \<le> unat bn" "unat bn < MAXFILE"
  then have u: "unat (bn - of_nat NDIRECT) = unat bn - NDIRECT"
    "unat (bn - of_nat NDIRECT - of_nat NINDIRECT) = unat bn - NDIRECT - NINDIRECT"
    by (simp_all add: unat_sub_const)
  have c: "\<not> unat bn < NDIRECT" "\<not> unat bn - NDIRECT < NINDIRECT"
    "unat bn - NDIRECT - NINDIRECT < NINDIRECT * NINDIRECT"
    using a by (simp_all add: MAXFILE_def)
  show "bmap s ip bn =
       (case bmap_slot s ip (NDIRECT + 1) of
          Inl e \<Rightarrow> Inl e
        | Inr (addr, s1, ip1) \<Rightarrow>
            (case bmap_entry s1 (dev ip) addr ((unat bn - NDIRECT - NINDIRECT) div NINDIRECT) of
               Inl e \<Rightarrow> Inl e
             | Inr (addr1, s2) \<Rightarrow>
                 (case bmap_entry s2 (dev ip) addr1 ((unat bn - NDIRECT - NINDIRECT) mod NINDIRECT) of
                    Inl e \<Rightarrow> Inl e
                  | Inr (addr2, s3) \<Rightarrow> Inr (addr2, s3, ip1))))"
    unfolding bmap_def Let_def u using c by simp
qed

lemma lookup_path:
  assumes "blk_lookup s ip bn \<noteq> 0"
  shows "live s ip (term_cell s ip bn)" "cval s ip (term_cell s ip bn) = blk_lookup s ip bn"
    "NDIRECT \<le> bn \<Longrightarrow> bn < NDIRECT + NINDIRECT \<Longrightarrow> live s ip (Slot NDIRECT)"
    "NDIRECT + NINDIRECT \<le> bn \<Longrightarrow> live s ip (Slot (NDIRECT + 1))
       \<and> live s ip (Ent (addrs ip ! (NDIRECT + 1)) ((bn - NDIRECT - NINDIRECT) div NINDIRECT))"
proof -
  have lt: "bn < MAXFILE"
    using assms by (rule blk_lookup_bound)
  consider (d) "bn < NDIRECT"
    | (i) "NDIRECT \<le> bn" "bn < NDIRECT + NINDIRECT"
    | (dd) "NDIRECT + NINDIRECT \<le> bn"
    by linarith
  then have "live s ip (term_cell s ip bn) \<and> cval s ip (term_cell s ip bn) = blk_lookup s ip bn
    \<and> (NDIRECT \<le> bn \<longrightarrow> bn < NDIRECT + NINDIRECT \<longrightarrow> live s ip (Slot NDIRECT))
    \<and> (NDIRECT + NINDIRECT \<le> bn \<longrightarrow> live s ip (Slot (NDIRECT + 1))
       \<and> live s ip (Ent (addrs ip ! (NDIRECT + 1)) ((bn - NDIRECT - NINDIRECT) div NINDIRECT)))"
  proof cases
    case d
    then show ?thesis
      using assms by (simp add: blk_lookup_def term_cell_def live_def)
  next
    case i
    then have c: "\<not> bn < NDIRECT" "bn - NDIRECT < NINDIRECT"
      by simp_all
    from i assms have nz: "addrs ip ! NDIRECT \<noteq> 0"
      "ent s (dev ip) (addrs ip ! NDIRECT) (bn - NDIRECT) \<noteq> 0"
      by (auto simp: blk_lookup_def split: if_splits)
    have "is_index s ip (addrs ip ! NDIRECT)"
      using nz by (simp add: is_index_def)
    then show ?thesis
      using i c nz by (simp add: blk_lookup_def term_cell_def live_def)
  next
    case dd
    let ?r = "bn - NDIRECT - NINDIRECT"
    let ?D = "addrs ip ! (NDIRECT + 1)"
    have c: "\<not> bn < NDIRECT" "\<not> bn < NDIRECT + NINDIRECT" "?r div NINDIRECT < NINDIRECT"
      "?r mod NINDIRECT < NINDIRECT"
      using dd lt by (simp_all add: MAXFILE_def NINDIRECT_def BSIZE_def NDIRECT_def)
    from dd lt assms have nz: "?D \<noteq> 0" "ent s (dev ip) ?D (?r div NINDIRECT) \<noteq> 0"
      "ent s (dev ip) (ent s (dev ip) ?D (?r div NINDIRECT)) (?r mod NINDIRECT) \<noteq> 0"
      by (auto simp: blk_lookup_def Let_def split: if_splits)
    have iD: "is_index s ip ?D"
      using nz by (simp add: is_index_def)
    have iX: "is_index s ip (ent s (dev ip) ?D (?r div NINDIRECT))"
      using nz c(3) unfolding is_index_def by blast
    show ?thesis
      using dd lt c nz iD iX by (simp add: blk_lookup_def term_cell_def live_def Let_def)
  qed
  then show "live s ip (term_cell s ip bn)" "cval s ip (term_cell s ip bn) = blk_lookup s ip bn"
    "NDIRECT \<le> bn \<Longrightarrow> bn < NDIRECT + NINDIRECT \<Longrightarrow> live s ip (Slot NDIRECT)"
    "NDIRECT + NINDIRECT \<le> bn \<Longrightarrow> live s ip (Slot (NDIRECT + 1))
       \<and> live s ip (Ent (addrs ip ! (NDIRECT + 1)) ((bn - NDIRECT - NINDIRECT) div NINDIRECT))"
    by simp_all
qed

lemma lookup_extends:
  assumes e: "extends s ip s' ip'" and nz: "blk_lookup s ip bn \<noteq> 0"
  shows "blk_lookup s' ip' bn = blk_lookup s ip bn"
proof -
  note p = lookup_path [OF nz]
  note dv = extends_dev [OF e]
  have lt: "bn < MAXFILE"
    using nz by (rule blk_lookup_bound)
  have t: "cval s' ip' (term_cell s ip bn) = blk_lookup s ip bn"
    using extends_live(2) [OF e p(1)] p(2) by simp
  consider (d) "bn < NDIRECT"
    | (i) "NDIRECT \<le> bn" "bn < NDIRECT + NINDIRECT"
    | (dd) "NDIRECT + NINDIRECT \<le> bn"
    by linarith
  then show ?thesis
  proof cases
    case d
    then show ?thesis
      using t by (simp add: blk_lookup_def term_cell_def)
  next
    case i
    have "cval s' ip' (Slot NDIRECT) = cval s ip (Slot NDIRECT)" "live s ip (Slot NDIRECT)"
      using extends_live(2) [OF e p(3) [OF i]] p(3) [OF i] by simp_all
    then have I: "addrs ip' ! NDIRECT = addrs ip ! NDIRECT" "addrs ip ! NDIRECT \<noteq> 0"
      by (simp_all add: live_def)
    show ?thesis
      using i t I nz dv by (simp add: blk_lookup_def term_cell_def)
  next
    case dd
    let ?r = "bn - NDIRECT - NINDIRECT"
    let ?D = "addrs ip ! (NDIRECT + 1)"
    from p(4) [OF dd] have l: "live s ip (Slot (NDIRECT + 1))" "live s ip (Ent ?D (?r div NINDIRECT))"
      by simp_all
    have D: "addrs ip' ! (NDIRECT + 1) = ?D" "?D \<noteq> 0"
      using extends_live(2) [OF e l(1)] l(1) by (simp_all add: live_def)
    have X: "ent s' (dev ip) ?D (?r div NINDIRECT) = ent s (dev ip) ?D (?r div NINDIRECT)"
      "ent s (dev ip) ?D (?r div NINDIRECT) \<noteq> 0"
      using extends_live(2) [OF e l(2)] l(2) dv by (simp_all add: live_def)
    have c: "\<not> bn < NDIRECT" "\<not> bn < NDIRECT + NINDIRECT"
      using dd by simp_all
    show ?thesis
      using lt t D X nz dv c by (simp add: blk_lookup_def term_cell_def Let_def)
  qed
qed




lemma bmap_inv:
  assumes inv: "fs_inv s ip" and bm: "bmap s ip bn = Inr (a, s', ip')"
  shows "fs_inv s' ip'" "extends s ip s' ip'" "blk_lookup s' ip' (unat bn) = a" "a \<noteq> 0"
    "blk_lookup s ip (unat bn) = 0 \<Longrightarrow> \<not> owned s ip a \<and> (\<forall>k<BSIZE. disk s' (dev ip, a) k = 0)"
proof -
  have lt: "unat bn < MAXFILE"
  proof (rule ccontr)
    assume "\<not> unat bn < MAXFILE"
    then have "bmap s ip bn = Inl (Panic ''bmap: out of range'')"
      by (intro bmap_out_of_range) simp
    then show False using bm by simp
  qed
  consider (d) "unat bn < NDIRECT"
    | (i) "NDIRECT \<le> unat bn" "unat bn < NDIRECT + NINDIRECT"
    | (dd) "NDIRECT + NINDIRECT \<le> unat bn"
    by linarith
  then have "fs_inv s' ip' \<and> extends s ip s' ip' \<and> blk_lookup s' ip' (unat bn) = a \<and> a \<noteq> 0
    \<and> (blk_lookup s ip (unat bn) = 0 \<longrightarrow> \<not> owned s ip a \<and> (\<forall>k<BSIZE. disk s' (dev ip, a) k = 0))"
  proof cases
    case d
    then have b: "bmap_slot s ip (unat bn) = Inr (a, s', ip')"
      using bm by (simp add: bmap_tiers)
    have i: "unat bn < NDIRECT + 2"
      using d by simp
    note st = bmap_slot_inv [OF inv i b]
    have "a \<noteq> 0"
      using st(3,4) by (simp add: live_def)
    then show ?thesis
      using st d by (simp add: blk_lookup_def)
  next
    case i
    from bm obtain I s1 where
      b1: "bmap_slot s ip NDIRECT = Inr (I, s1, ip')"
      and b2: "bmap_entry s1 (dev ip) I (unat bn - NDIRECT) = Inr (a, s')"
      unfolding bmap_tiers(2) [OF i] by (auto split: sum.splits)
    have j: "unat bn - NDIRECT < NINDIRECT"
      using i by simp
    have i11: "NDIRECT < NDIRECT + 2"
      by simp
    note s1 = bmap_slot_inv [OF inv i11 b1]
    have dv: "dev ip' = dev ip"
      using extends_dev [OF s1(2)] by simp
    have Inz: "I \<noteq> 0"
      using s1(3,4) by (simp add: live_def)
    then have ix: "is_index s1 ip' I"
      using s1(4) by (simp add: is_index_def)
    note s2 = bmap_entry_inv [OF s1(1) ix j b2 [folded dv], unfolded dv]
    have e: "extends s ip s' ip'"
      using s1(2) s2(2) s1(1) by (rule extends_trans)
    have anz: "a \<noteq> 0"
      using s2(3,4) by (simp add: live_def dv)
    have lk: "blk_lookup s' ip' (unat bn) = a"
      using i s1(4) Inz s2(4) dv by (simp add: blk_lookup_def)
    have fr: "\<not> owned s ip a \<and> (\<forall>k<BSIZE. disk s' (dev ip, a) k = 0)"
      if z: "blk_lookup s ip (unat bn) = 0"
    proof -
      have "ent s1 (dev ip) I (unat bn - NDIRECT) = 0"
      proof (cases "addrs ip ! NDIRECT = 0")
        case True
        then show ?thesis
          using s1(6) j by simp
      next
        case False
        then have "s1 = s" "ip' = ip" "I = addrs ip ! NDIRECT"
          using s1(5) s1(4) by auto
        then show ?thesis
          using z i False by (simp add: blk_lookup_def)
      qed
      then have "\<not> owned s1 ip' a" "\<forall>k<BSIZE. disk s' (dev ip, a) k = 0"
        using s2(6) by simp_all
      then show ?thesis
        using extends_owned [OF s1(2)] by blast
    qed
    show ?thesis
      using s2(1) e lk anz fr by simp
  next
    case dd
    let ?r = "unat bn - NDIRECT - NINDIRECT"
    from bm obtain D s1 X s2 where
      b1: "bmap_slot s ip (NDIRECT + 1) = Inr (D, s1, ip')"
      and b2: "bmap_entry s1 (dev ip) D (?r div NINDIRECT) = Inr (X, s2)"
      and b3: "bmap_entry s2 (dev ip) X (?r mod NINDIRECT) = Inr (a, s')"
      unfolding bmap_tiers(3) [OF dd lt] by (auto split: sum.splits)
    have j: "?r div NINDIRECT < NINDIRECT" "?r mod NINDIRECT < NINDIRECT"
      using dd lt by (simp_all add: MAXFILE_def NINDIRECT_def BSIZE_def NDIRECT_def)
    have i12: "NDIRECT + 1 < NDIRECT + 2"
      by simp
    note s1 = bmap_slot_inv [OF inv i12 b1]
    have dv: "dev ip' = dev ip"
      using extends_dev [OF s1(2)] by simp
    have Dnz: "D \<noteq> 0"
      using s1(3,4) by (simp add: live_def)
    then have ixD: "is_index s1 ip' D"
      using s1(4) by (simp add: is_index_def)
    note s2 = bmap_entry_inv [OF s1(1) ixD j(1) b2 [folded dv], unfolded dv]
    have Xnz: "X \<noteq> 0"
      using s2(3,4) by (simp add: live_def dv)
    have ixX: "is_index s2 ip' X"
      unfolding is_index_def using Xnz Dnz s1(4) s2(4) j(1) dv by auto
    note s3 = bmap_entry_inv [OF s2(1) ixX j(2) b3 [folded dv], unfolded dv]
    have e02: "extends s ip s2 ip'"
      using s1(2) s2(2) s1(1) by (rule extends_trans)
    have e: "extends s ip s' ip'"
      using e02 s3(2) s2(1) by (rule extends_trans)
    have anz: "a \<noteq> 0"
      using s3(3,4) by (simp add: live_def dv)
    have "cval s' ip' (Ent D (?r div NINDIRECT)) = cval s2 ip' (Ent D (?r div NINDIRECT))"
      using extends_live(2) [OF s3(2) s2(3)] .
    then have X3: "ent s' (dev ip) D (?r div NINDIRECT) = X"
      using s2(4) dv by simp
    have c: "\<not> unat bn < NDIRECT" "\<not> unat bn < NDIRECT + NINDIRECT"
      using dd by simp_all
    have lk: "blk_lookup s' ip' (unat bn) = a"
      using c lt s1(4) Dnz X3 Xnz s3(4) dv by (simp add: blk_lookup_def Let_def)
    have fr: "\<not> owned s ip a \<and> (\<forall>k<BSIZE. disk s' (dev ip, a) k = 0)"
      if z: "blk_lookup s ip (unat bn) = 0"
    proof -
      have "ent s2 (dev ip) X (?r mod NINDIRECT) = 0"
      proof (cases "addrs ip ! (NDIRECT + 1) = 0")
        case True
        then have "ent s1 (dev ip) D (?r div NINDIRECT) = 0"
          using s1(6) j by simp
        then show ?thesis
          using s2(6) j by simp
      next
        case False
        then have same: "s1 = s" "ip' = ip" "D = addrs ip ! (NDIRECT + 1)"
          using s1(5) s1(4) by auto
        show ?thesis
        proof (cases "ent s1 (dev ip) D (?r div NINDIRECT) = 0")
          case True
          then show ?thesis
            using s2(6) j by simp
        next
          case nz: False
          then have "s2 = s" "X = ent s (dev ip) D (?r div NINDIRECT)"
            using s2(5) s2(4) same by auto
          then show ?thesis
            using z c lt False nz same by (simp add: blk_lookup_def Let_def)
        qed
      qed
      then have "\<not> owned s2 ip' a" "\<forall>k<BSIZE. disk s' (dev ip, a) k = 0"
        using s3(6) by simp_all
      then show ?thesis
        using extends_owned [OF e02] by blast
    qed
    show ?thesis
      using s3(1) e lk anz fr by simp
  qed
  then show "fs_inv s' ip'" "extends s ip s' ip'" "blk_lookup s' ip' (unat bn) = a" "a \<noteq> 0"
    "blk_lookup s ip (unat bn) = 0 \<Longrightarrow> \<not> owned s ip a \<and> (\<forall>k<BSIZE. disk s' (dev ip, a) k = 0)"
    by simp_all
qed


section \<open>Tier selection of the translation\<close>

text \<open>Allocation succeeds while a free block is left, and uses up one free block.\<close>

lemma balloc_progress:
  assumes sz: "unat (size_sb (sb s)) \<le> 2 ^ 31" and k: "k \<in> free_blocks s dv"
  shows "\<exists>a. balloc s dv = Inr (a, balloc_at s dv a) \<and> a \<in> free_blocks s dv"
proof -
  from ex_has_least_nat [of "\<lambda>j. j \<in> free_blocks s dv" k unat, OF k]
  obtain a where a: "a \<in> free_blocks s dv" "\<forall>j. j \<in> free_blocks s dv \<longrightarrow> unat a \<le> unat j"
    by blast
  have lt: "a < size_sb (sb s)" and nb: "\<not> bused s dv a"
    using a(1) by (simp_all add: free_blocks_def)
  have "unat a < 2 ^ 31"
    using lt sz by (simp add: word_less_nat_alt)
  moreover have "\<forall>j<a. bused s dv j"
  proof (intro allI impI)
    fix j assume j: "j < a"
    show "bused s dv j"
    proof (rule ccontr)
      assume "\<not> bused s dv j"
      then have "j \<in> free_blocks s dv"
        using j lt by (simp add: free_blocks_def)
      then have "unat a \<le> unat j"
        using a(2) by blast
      then show False
        using j by (simp add: word_less_nat_alt)
    qed
  qed
  ultimately have "balloc s dv = Inr (a, balloc_at s dv a)"
    using lt nb by (intro balloc_first_free_nat)
  with a(1) show ?thesis
    by blast
qed

lemma free_after_balloc:
  assumes inv: "fs_inv s ip" and a: "a \<in> free_blocks s (dev ip)"
  shows "free_blocks s (dev ip) - {a} \<subseteq> free_blocks (balloc_at s (dev ip) a) (dev ip)"
proof
  fix k assume k: "k \<in> free_blocks s (dev ip) - {a}"
  then have kk: "k < size_sb (sb s)" "\<not> bused s (dev ip) k" "k \<noteq> a"
    by (simp_all add: free_blocks_def)
  have "is_bitmap s (BBLOCK k (sb s))"
    using kk(1) unfolding is_bitmap_def by blast
  then have "bused s (dev ip) (BBLOCK k (sb s))"
    using inv unfolding fs_inv_def marked_def by blast
  moreover have "\<not> bused s (dev ip) a"
    using a by (simp add: free_blocks_def)
  ultimately have "BBLOCK k (sb s) \<noteq> a"
    by auto
  then have "bused (balloc_at s (dev ip) a) (dev ip) k = (bused s (dev ip) k \<or> k = a)"
    using balloc_at_bused [of k s a "dev ip" "dev ip"] by simp
  then show "k \<in> free_blocks (balloc_at s (dev ip) a) (dev ip)"
    using kk by (simp add: free_blocks_def)
qed

lemma card_free_step:
  assumes "Suc n \<le> card (free_blocks s dv)" "free_blocks s dv - {a} \<subseteq> free_blocks s' dv"
  shows "n \<le> card (free_blocks s' dv)"
proof -
  have "card (free_blocks s dv) - card {a} \<le> card (free_blocks s dv - {a})"
    by (rule diff_card_le_card_Diff) simp
  then have "n \<le> card (free_blocks s dv - {a})"
    using assms(1) by simp
  also have "\<dots> \<le> card (free_blocks s' dv)"
    using assms(2) by (intro card_mono) simp_all
  finally show ?thesis .
qed

lemma bmap_slot_progress:
  assumes inv: "fs_inv s ip" and sz: "unat (size_sb (sb s)) \<le> 2 ^ 31"
    and fr: "Suc n \<le> card (free_blocks s (dev ip))"
  shows "\<exists>a s' ip'. bmap_slot s ip i = Inr (a, s', ip') \<and> n \<le> card (free_blocks s' (dev ip))"
proof (cases "addrs ip ! i = 0")
  case False
  then show ?thesis
    using fr by (simp add: bmap_slot_def)
next
  case True
  have "free_blocks s (dev ip) \<noteq> {}"
    using fr by auto
  then obtain k where "k \<in> free_blocks s (dev ip)"
    by blast
  from balloc_progress [OF sz this]
  obtain a where a: "balloc s (dev ip) = Inr (a, balloc_at s (dev ip) a)" "a \<in> free_blocks s (dev ip)"
    by blast
  have "n \<le> card (free_blocks (balloc_at s (dev ip) a) (dev ip))"
    using fr free_after_balloc [OF inv a(2)] by (rule card_free_step)
  then show ?thesis
    using True a(1) by (simp add: bmap_slot_def)
qed

lemma bmap_entry_progress:
  assumes inv: "fs_inv s ip" and sz: "unat (size_sb (sb s)) \<le> 2 ^ 31"
    and b: "is_index s ip b"
    and fr: "Suc n \<le> card (free_blocks s (dev ip))"
  shows "\<exists>a s'. bmap_entry s (dev ip) b j = Inr (a, s') \<and> n \<le> card (free_blocks s' (dev ip))"
proof (cases "rd_u32 (bread s (dev ip) b) (4 * j) = 0")
  case False
  then show ?thesis
    using fr by (simp add: bmap_entry_def)
next
  case True
  have "free_blocks s (dev ip) \<noteq> {}"
    using fr by auto
  then obtain k where "k \<in> free_blocks s (dev ip)"
    by blast
  from balloc_progress [OF sz this]
  obtain a where a: "balloc s (dev ip) = Inr (a, balloc_at s (dev ip) a)" "a \<in> free_blocks s (dev ip)"
    by blast
  let ?s1 = "balloc_at s (dev ip) a"
  let ?s' = "log_write (buf_set ?s1 (dev ip) b (wr_u32 (bread ?s1 (dev ip) b) (4 * j) a)) (dev ip) b"
  have nb: "\<not> is_bitmap s b"
    using inv is_index_owned [OF b] unfolding fs_inv_def by blast
  have "free_blocks ?s1 (dev ip) \<subseteq> free_blocks ?s' (dev ip)"
  proof
    fix k assume "k \<in> free_blocks ?s1 (dev ip)"
    then have k: "k < size_sb (sb s)" "\<not> bused ?s1 (dev ip) k"
      by (simp_all add: free_blocks_def)
    then have "is_bitmap s (BBLOCK k (sb s))"
      unfolding is_bitmap_def by blast
    then have "BBLOCK k (sb s) \<noteq> b"
      using nb by auto
    then have "bused ?s' (dev ip) k = bused ?s1 (dev ip) k"
      by (simp add: bused_def)
    then show "k \<in> free_blocks ?s' (dev ip)"
      using k by (simp add: free_blocks_def)
  qed
  with free_after_balloc [OF inv a(2)]
  have "free_blocks s (dev ip) - {a} \<subseteq> free_blocks ?s' (dev ip)"
    by blast
  with fr have "n \<le> card (free_blocks ?s' (dev ip))"
    by (rule card_free_step)
  then show ?thesis
    using True a(1) by (simp add: bmap_entry_def)
qed

lemma bmap_progress:
  assumes inv: "fs_inv s ip" and sz: "unat (size_sb (sb s)) \<le> 2 ^ 31"
    and bn: "unat bn < MAXFILE"
    and fr: "n + 3 \<le> card (free_blocks s (dev ip))"
  shows "\<exists>a s' ip'. bmap s ip bn = Inr (a, s', ip') \<and> n \<le> card (free_blocks s' (dev ip))"
proof -
  consider (d) "unat bn < NDIRECT" | (i) "NDIRECT \<le> unat bn" "unat bn < NDIRECT + NINDIRECT"
    | (dd) "NDIRECT + NINDIRECT \<le> unat bn"
    by linarith
  then show ?thesis
  proof cases
    case d
    have "Suc n \<le> card (free_blocks s (dev ip))"
      using fr by simp
    from bmap_slot_progress [OF inv sz this, of "unat bn"] show ?thesis
      unfolding bmap_tiers(1) [OF d] .
  next
    case i
    have "Suc (Suc n) \<le> card (free_blocks s (dev ip))"
      using fr by simp
    from bmap_slot_progress [OF inv sz this, of NDIRECT]
    obtain a1 s1 ip1 where p1: "bmap_slot s ip NDIRECT = Inr (a1, s1, ip1)"
        "Suc n \<le> card (free_blocks s1 (dev ip))"
      by blast
    have i11: "NDIRECT < NDIRECT + 2"
      by simp
    note v = bmap_slot_inv [OF inv i11 p1(1)]
    note dv = extends_dev [OF v(2)]
    have sb1: "sb s1 = sb s"
      using v(2) by (simp add: extends_def)
    have idx: "is_index s1 ip1 a1"
      using v(3,4) by (auto simp: live_def is_index_def)
    from bmap_entry_progress [OF v(1) _ idx, of n "unat bn - NDIRECT"] p1(2) sz
    obtain a2 s2 where p2: "bmap_entry s1 (dev ip) a1 (unat bn - NDIRECT) = Inr (a2, s2)"
        "n \<le> card (free_blocks s2 (dev ip))"
      unfolding sb1 using dv by auto
    show ?thesis
      unfolding bmap_tiers(2) [OF i] using p1(1) p2 by simp
  next
    case dd
    let ?r = "unat bn - NDIRECT - NINDIRECT"
    have r: "?r div NINDIRECT < NINDIRECT" "?r mod NINDIRECT < NINDIRECT"
      using bn dd by (simp_all add: MAXFILE_def NINDIRECT_def BSIZE_def NDIRECT_def)
    have "Suc (Suc (Suc n)) \<le> card (free_blocks s (dev ip))"
      using fr by simp
    from bmap_slot_progress [OF inv sz this, of "NDIRECT + 1"]
    obtain a1 s1 ip1 where p1: "bmap_slot s ip (NDIRECT + 1) = Inr (a1, s1, ip1)"
        "Suc (Suc n) \<le> card (free_blocks s1 (dev ip))"
      by blast
    have i12: "NDIRECT + 1 < NDIRECT + 2"
      by simp
    note v = bmap_slot_inv [OF inv i12 p1(1)]
    note dv = extends_dev [OF v(2)]
    have sb1: "sb s1 = sb s"
      using v(2) by (simp add: extends_def)
    have idx: "is_index s1 ip1 a1"
      using v(3,4) by (auto simp: live_def is_index_def)
    from bmap_entry_progress [OF v(1) _ idx, of "Suc n" "?r div NINDIRECT"] p1(2) sz
    obtain a2 s2 where p2: "bmap_entry s1 (dev ip) a1 (?r div NINDIRECT) = Inr (a2, s2)"
        "Suc n \<le> card (free_blocks s2 (dev ip))"
      unfolding sb1 using dv by auto
    have p2': "bmap_entry s1 (dev ip1) a1 (?r div NINDIRECT) = Inr (a2, s2)"
      using p2(1) dv by simp
    note w = bmap_entry_inv [OF v(1) idx r(1) p2']
    have sb2: "sb s2 = sb s"
      using w(2) sb1 by (simp add: extends_def)
    have idx2: "is_index s2 ip1 a2"
      using w(3,4) v(4) idx extends_is_index [OF w(2) idx]
      by (auto simp: live_def is_index_def)
    from bmap_entry_progress [OF w(1) _ idx2, of n "?r mod NINDIRECT"] p2(2) sz
    obtain a3 s3 where p3: "bmap_entry s2 (dev ip) a2 (?r mod NINDIRECT) = Inr (a3, s3)"
        "n \<le> card (free_blocks s3 (dev ip))"
      unfolding sb2 using dv by auto
    show ?thesis
      unfolding bmap_tiers(3) [OF dd bn] using p1(1) p2(1) p3 by simp
  qed
qed

text \<open>
  C1: \<open>bmap\<close> selects the tier by the range of the logical block number. The place that
  the tier assigns to \<open>bn\<close> is the direct slot \<open>bn\<close>; entry \<open>bn - NDIRECT\<close> of the
  single-indirect block; entry \<open>r mod NINDIRECT\<close> of the inner block listed at entry
  \<open>r div NINDIRECT\<close> of the double-indirect block, \<open>r = bn - NDIRECT - NINDIRECT\<close>; it is
  what \<open>blk_lookup\<close> reads. When that place holds an address, \<open>bmap\<close> returns it and
  changes nothing. On a consistent file, whenever \<open>bmap\<close> returns, that place holds the
  returned nonzero address afterwards, an address that was allocated is new to the file,
  the file is still consistent and every block that was mapped before keeps its address.
  On a consistent file, for \<open>bn < MAXFILE\<close> on a volume of at most \<open>2^31\<close> blocks with
  three free blocks (one for each level that may be missing), \<open>bmap\<close> does return, mapped
  or not. For \<open>bn \<ge> MAXFILE\<close> it panics.
\<close>

theorem bmap_selects_tier:
  "(blk_lookup s ip (unat bn) \<noteq> 0 \<longrightarrow> bmap s ip bn = Inr (blk_lookup s ip (unat bn), s, ip))
   \<and> (fs_inv s ip \<longrightarrow>
        (\<forall>a s' ip'. bmap s ip bn = Inr (a, s', ip') \<longrightarrow>
           blk_lookup s' ip' (unat bn) = a \<and> a \<noteq> 0 \<and> fs_inv s' ip'
           \<and> (blk_lookup s ip (unat bn) = 0 \<longrightarrow> \<not> owned s ip a)
           \<and> (\<forall>bn'. blk_lookup s ip bn' \<noteq> 0 \<longrightarrow> blk_lookup s' ip' bn' = blk_lookup s ip bn')))
   \<and> (fs_inv s ip \<and> unat bn < MAXFILE \<and> unat (size_sb (sb s)) \<le> 2 ^ 31
        \<and> 3 \<le> card (free_blocks s (dev ip)) \<longrightarrow>
        (\<exists>a s' ip'. bmap s ip bn = Inr (a, s', ip') \<and> blk_lookup s' ip' (unat bn) = a \<and> a \<noteq> 0))
   \<and> (MAXFILE \<le> unat bn \<longrightarrow> bmap s ip bn = Inl (Panic ''bmap: out of range''))"
proof (intro conjI impI allI)
  assume "blk_lookup s ip (unat bn) \<noteq> 0"
  then show "bmap s ip bn = Inr (blk_lookup s ip (unat bn), s, ip)"
    by (rule bmap_present)
next
  fix a s' ip'
  assume inv: "fs_inv s ip" and bm: "bmap s ip bn = Inr (a, s', ip')"
  note b = bmap_inv [OF inv bm]
  show "blk_lookup s' ip' (unat bn) = a" "a \<noteq> 0" "fs_inv s' ip'"
    using b by simp_all
  show "\<not> owned s ip a" if "blk_lookup s ip (unat bn) = 0"
    using b(5) [OF that] by simp
  fix bn' assume "blk_lookup s ip bn' \<noteq> 0"
  with b(2) show "blk_lookup s' ip' bn' = blk_lookup s ip bn'"
    by (rule lookup_extends)
next
  assume a: "fs_inv s ip \<and> unat bn < MAXFILE \<and> unat (size_sb (sb s)) \<le> 2 ^ 31
        \<and> 3 \<le> card (free_blocks s (dev ip))"
  then have "0 + 3 \<le> card (free_blocks s (dev ip))"
    by simp
  from bmap_progress [OF _ _ _ this, of bn] a
  obtain r s' ip' where bm: "bmap s ip bn = Inr (r, s', ip')"
    by blast
  from a have "fs_inv s ip"
    by simp
  from bmap_inv(3,4) [OF this bm] bm
  show "\<exists>a s' ip'. bmap s ip bn = Inr (a, s', ip') \<and> blk_lookup s' ip' (unat bn) = a \<and> a \<noteq> 0"
    by blast
next
  assume "MAXFILE \<le> unat bn"
  then show "bmap s ip bn = Inl (Panic ''bmap: out of range'')"
    by (rule bmap_out_of_range)
qed

lemma ex_is_bitmap: "is_bitmap ex_state m = (m = 4)"
proof
  assume "is_bitmap ex_state m"
  then obtain k where "k < size_sb (sb ex_state)" "m = BBLOCK k (sb ex_state)"
    unfolding is_bitmap_def by blast
  then have "unat k < 16" "m = BBLOCK k ex_sb"
    by (simp_all add: ex_state_def ex_sb_def word_less_nat_alt)
  then show "m = 4"
    using ex_BBLOCK by simp
next
  assume "m = 4"
  moreover have "(0::u32) < size_sb (sb ex_state)" "BBLOCK 0 (sb ex_state) = 4"
    by (simp_all add: ex_state_def ex_sb_def BBLOCK_def)
  ultimately show "is_bitmap ex_state m"
    unfolding is_bitmap_def by metis
qed

lemma ex_marked: "unat k < 5 \<Longrightarrow> marked ex_state 1 k"
  unfolding marked_def by (simp add: ex_bused) (simp add: ex_state_def ex_sb_def word_less_nat_alt)

lemma ex_no_live: "\<not> live ex_state ex_inode c"
proof (cases c)
  case (Slot i)
  show ?thesis
  proof (cases "i < 13")
    case True
    then show ?thesis
      using Slot by (simp add: live_def ex_inode_def)
  next
    case False
    then show ?thesis
      using Slot by (simp add: live_def NDIRECT_def)
  qed
next
  case (Ent b j)
  have "\<not> is_index ex_state ex_inode b"
    by (auto simp: is_index_def ex_inode_def NDIRECT_def)
  then show ?thesis
    using Ent by (simp add: live_def)
qed

lemma ex_fs_inv: "fs_inv ex_state ex_inode"
proof -
  have d: "dev ex_inode = 1" "inum ex_inode = 1" "length (addrs ex_inode) = NDIRECT + 2"
    by (simp_all add: ex_inode_def NDIRECT_def)
  have ib: "IBLOCK 1 (sb ex_state) = 3"
    by (simp add: IBLOCK_def ex_state_def ex_sb_def IPB_def BSIZE_def DINODE_SIZE_def NDIRECT_def)
  have no: "\<not> owned ex_state ex_inode b" for b
    unfolding owned_def using ex_no_live by blast
  show ?thesis
    unfolding fs_inv_def d ib
    using ex_no_live no ex_marked [of 0] ex_marked [of 3] ex_marked [of 4]
    by (simp add: ex_is_bitmap)
qed

lemma ex_free_blocks: "3 \<le> card (free_blocks ex_state 1)"
proof -
  have "k \<in> free_blocks ex_state 1" if "k \<in> {5, 6, 7}" for k :: u32
  proof -
    have "unat k < 8" "\<not> unat k < 5" "k < 16"
      using that by auto
    then show ?thesis
      by (simp add: free_blocks_def ex_bused) (simp add: ex_state_def ex_sb_def)
  qed
  then have "{5, 6, 7} \<subseteq> free_blocks ex_state 1"
    by blast
  then have "card {5 :: u32, 6, 7} \<le> card (free_blocks ex_state 1)"
    by (intro card_mono) simp_all
  then show ?thesis
    by simp
qed

theorem bmap_selects_tier_witness:
  "bmap ex_file_state ex_file_inode 0 = Inr (5, ex_file_state, ex_file_inode)
   \<and> (\<exists>s' ip'. bmap ex_state ex_inode 0 = Inr (5, s', ip') \<and> blk_lookup s' ip' 0 = 5 \<and> fs_inv s' ip')
   \<and> (\<exists>a s' ip'. bmap ex_state ex_inode 11 = Inr (a, s', ip') \<and> blk_lookup s' ip' 11 = a \<and> a \<noteq> 0)
   \<and> (\<exists>a s' ip'. bmap ex_state ex_inode 272 = Inr (a, s', ip') \<and> blk_lookup s' ip' 272 = a \<and> a \<noteq> 0)
   \<and> bmap ex_state ex_inode 16523 = Inl (Panic ''bmap: out of range'')"
proof -
  have al: "balloc ex_state 1 = Inr (5, balloc_at ex_state 1 5)"
  proof (rule balloc_first_free_nat)
    show "(5::u32) < size_sb (sb ex_state)"
      by (simp add: ex_state_def ex_sb_def)
    show "unat (5::u32) < 2 ^ 31" by simp
    show "\<not> bused ex_state 1 5" by (simp add: ex_bused)
    show "\<forall>j<5. bused ex_state 1 j" by (simp add: ex_bused word_less_nat_alt)
  qed
  have bm: "bmap ex_state ex_inode 0
      = Inr (5, balloc_at ex_state 1 5, ex_inode\<lparr>addrs := (addrs ex_inode)[0 := 5]\<rparr>)"
    using al by (simp add: bmap_def bmap_slot_def NDIRECT_def) (simp add: ex_inode_def)
  have pre: "unat (size_sb (sb ex_state)) \<le> 2 ^ 31" "dev ex_inode = 1"
      "unat (11 :: u32) < MAXFILE" "unat (272 :: u32) < MAXFILE"
    by (simp_all add: ex_state_def ex_sb_def ex_inode_def MAXFILE_def NINDIRECT_def BSIZE_def NDIRECT_def)
  note t = bmap_selects_tier [of ex_file_state ex_file_inode 0]
    bmap_selects_tier [of ex_state ex_inode 0] bmap_selects_tier [of ex_state ex_inode 16523]
    bmap_selects_tier [of ex_state ex_inode 11] bmap_selects_tier [of ex_state ex_inode 272]
  have a: "bmap ex_file_state ex_file_inode 0 = Inr (5, ex_file_state, ex_file_inode)"
    using t(1) [THEN conjunct1] by (simp add: ex_file_lookup)
  have b: "blk_lookup (balloc_at ex_state 1 5) (ex_inode\<lparr>addrs := (addrs ex_inode)[0 := 5]\<rparr>) 0 = 5
      \<and> fs_inv (balloc_at ex_state 1 5) (ex_inode\<lparr>addrs := (addrs ex_inode)[0 := 5]\<rparr>)"
    using t(2) [THEN conjunct2, THEN conjunct1, THEN mp, OF ex_fs_inv, THEN spec, THEN spec, THEN spec,
      THEN mp, OF bm [simplified]] by simp
  have c: "bmap ex_state ex_inode 16523 = Inl (Panic ''bmap: out of range'')"
    using t(3) [THEN conjunct2, THEN conjunct2, THEN conjunct2]
    by (simp add: MAXFILE_def NINDIRECT_def BSIZE_def NDIRECT_def)
  have d: "\<exists>a s' ip'. bmap ex_state ex_inode 11 = Inr (a, s', ip') \<and> blk_lookup s' ip' 11 = a \<and> a \<noteq> 0"
    using t(4) [THEN conjunct2, THEN conjunct2, THEN conjunct1] ex_fs_inv ex_free_blocks pre
    by simp
  have e: "\<exists>a s' ip'. bmap ex_state ex_inode 272 = Inr (a, s', ip') \<and> blk_lookup s' ip' 272 = a \<and> a \<noteq> 0"
    using t(5) [THEN conjunct2, THEN conjunct2, THEN conjunct1] ex_fs_inv ex_free_blocks pre
    by simp
  from a b c d e bm show ?thesis
    by auto
qed
section \<open>Reading a file with an unmapped block\<close>

lemma ex_full_balloc: "balloc ex_full_state 1 = Inl (Panic ''balloc: out of blocks'')"
proof (rule balloc_exhausted)
  show "unat (size_sb (sb ex_full_state)) \<le> 2 ^ 31 - BPB"
    by (simp add: ex_full_state_def ex_sb_def BPB_def BSIZE_def)
  show "\<forall>k. k < size_sb (sb ex_full_state) \<longrightarrow> bused ex_full_state 1 k"
  proof (intro allI impI)
    fix k :: u32
    assume "k < size_sb (sb ex_full_state)"
    then have "unat k < 16"
      by (simp add: ex_full_state_def ex_sb_def word_less_nat_alt)
    then show "bused ex_full_state 1 k"
      by (rule ex_full_bused)
  qed
qed

text \<open>
  The claim as stated fails for a file with an unmapped block inside its size: a regular
  file of size 3 whose address table is empty, on the volume with every block in use.
  The offset 0 does not exceed the size and \<open>0 + 3\<close> does not wrap, yet \<open>readi\<close> neither
  copies nor returns a count: \<open>bmap\<close> tries to allocate the missing block and the
  allocator panics.
\<close>

theorem readi_clamps_and_copies_counterexample:
  "type (ex_inode\<lparr>size_i := 3\<rparr>) = T_FILE
   \<and> readi ex_devsw ex_full_state (ex_inode\<lparr>size_i := 3\<rparr>) (\<lambda>_. 0) 0 3
       = Inl (Panic ''balloc: out of blocks'')"
proof -
  have "bmap ex_full_state (ex_inode\<lparr>size_i := 3\<rparr>) 0 = Inl (Panic ''balloc: out of blocks'')"
    by (simp add: bmap_def bmap_slot_def NDIRECT_def ex_inode_def ex_full_balloc)
  then have "readi_loop ex_full_state (ex_inode\<lparr>size_i := 3\<rparr>) (\<lambda>_. 0) 0 3 0
      = Inl (Panic ''balloc: out of blocks'')"
    by (subst readi_loop.simps) (simp add: BSIZE_def)
  then show ?thesis
    by (simp add: readi_def ex_inode_def T_FILE_def T_DEV_def)
qed

section \<open>Inode cache lookup\<close>

lemma iget_scan_find:
  "iget_scan ic dv inr is emp =
     (case find (\<lambda>i. cached (ic ! i) dv inr) is of
        Some i \<Rightarrow> Found i
      | None \<Rightarrow> NotFound (case emp of Some e \<Rightarrow> Some e | None \<Rightarrow> find (\<lambda>i. ref (ic ! i) = 0) is))"
  by (induction "is" arbitrary: emp) (auto simp: cached_def split: option.splits)

lemma find_upt_first:
  assumes "i < n" "P i" "\<forall>j<i. \<not> P j"
  shows "find P [0..<n] = Some i"
proof -
  have "[0..<n] ! i = i" "i < length [0..<n]"
    using assms(1) by simp_all
  moreover have "\<forall>j<i. \<not> P ([0..<n] ! j)"
    using assms by simp
  ultimately show ?thesis
    using assms(2) unfolding find_Some_iff by (intro exI [of _ i]) simp
qed

lemma find_upt_none: "(\<forall>j<n. \<not> P j) \<Longrightarrow> find P [0..<n] = None"
  by (simp add: find_None_iff)

text \<open>
  C7: \<open>iget\<close> returns the first slot that holds (device, inode number) with a positive
  reference count, with that count incremented and nothing else changed; when no slot
  holds the pair it claims the first slot whose reference count is zero, setting device,
  inode number, \<open>ref = 1\<close> and \<open>valid = 0\<close>; when no slot holds the pair and every slot has a
  positive reference count it panics. In no case is the disk state touched.
\<close>

theorem iget_lookup_or_claim:
  "(\<forall>i. i < length (icache ks) \<and> cached (icache ks ! i) dv inr
          \<and> (\<forall>j<i. \<not> cached (icache ks ! j) dv inr)
        \<longrightarrow> iget ks dv inr =
            Inr (i, ks\<lparr>icache := (icache ks)[i := (icache ks ! i)\<lparr>ref := ref (icache ks ! i) + 1\<rparr>]\<rparr>))
   \<and> ((\<forall>j<length (icache ks). \<not> cached (icache ks ! j) dv inr) \<longrightarrow>
        (\<forall>i. i < length (icache ks) \<and> ref (icache ks ! i) = 0 \<and> (\<forall>j<i. ref (icache ks ! j) \<noteq> 0)
           \<longrightarrow> iget ks dv inr =
               Inr (i, ks\<lparr>icache := (icache ks)[i := (icache ks ! i)\<lparr>dev := dv, inum := inr, ref := 1, valid := 0\<rparr>]\<rparr>))
        \<and> ((\<forall>j<length (icache ks). 0 < sint (ref (icache ks ! j)))
           \<longrightarrow> iget ks dv inr = Inl (Panic ''iget: no inodes'')))
   \<and> (\<forall>i ks'. iget ks dv inr = Inr (i, ks') \<longrightarrow> ds ks' = ds ks)"
proof (intro conjI allI impI)
  fix i
  assume a: "i < length (icache ks) \<and> cached (icache ks ! i) dv inr
          \<and> (\<forall>j<i. \<not> cached (icache ks ! j) dv inr)"
  then have "find (\<lambda>i. cached (icache ks ! i) dv inr) [0..<length (icache ks)] = Some i"
    by (intro find_upt_first) simp_all
  then show "iget ks dv inr =
      Inr (i, ks\<lparr>icache := (icache ks)[i := (icache ks ! i)\<lparr>ref := ref (icache ks ! i) + 1\<rparr>]\<rparr>)"
    by (simp add: iget_def iget_scan_find)
next
  fix i
  assume n: "\<forall>j<length (icache ks). \<not> cached (icache ks ! j) dv inr"
    and a: "i < length (icache ks) \<and> ref (icache ks ! i) = 0 \<and> (\<forall>j<i. ref (icache ks ! j) \<noteq> 0)"
  from n have "find (\<lambda>i. cached (icache ks ! i) dv inr) [0..<length (icache ks)] = None"
    by (rule find_upt_none)
  moreover from a have "find (\<lambda>i. ref (icache ks ! i) = 0) [0..<length (icache ks)] = Some i"
    by (intro find_upt_first) simp_all
  ultimately show "iget ks dv inr =
      Inr (i, ks\<lparr>icache := (icache ks)[i := (icache ks ! i)\<lparr>dev := dv, inum := inr, ref := 1, valid := 0\<rparr>]\<rparr>)"
    by (simp add: iget_def iget_scan_find)
next
  assume n: "\<forall>j<length (icache ks). \<not> cached (icache ks ! j) dv inr"
    and p: "\<forall>j<length (icache ks). 0 < sint (ref (icache ks ! j))"
  from n have "find (\<lambda>i. cached (icache ks ! i) dv inr) [0..<length (icache ks)] = None"
    by (rule find_upt_none)
  moreover have "find (\<lambda>i. ref (icache ks ! i) = 0) [0..<length (icache ks)] = None"
  proof (rule find_upt_none, intro allI impI)
    fix j assume "j < length (icache ks)"
    with p have "0 < sint (ref (icache ks ! j))" by simp
    then show "ref (icache ks ! j) \<noteq> 0" by auto
  qed
  ultimately show "iget ks dv inr = Inl (Panic ''iget: no inodes'')"
    by (simp add: iget_def iget_scan_find)
next
  fix i ks'
  assume "iget ks dv inr = Inr (i, ks')"
  then show "ds ks' = ds ks"
    by (auto simp: iget_def split: scan_result.splits option.splits)
qed

theorem iget_lookup_or_claim_witness:
  "iget ex_kstate 1 1 = Inr (0, ex_kstate\<lparr>icache := [ex_root\<lparr>ref := 2\<rparr>, ex_free]\<rparr>)
   \<and> iget ex_kstate 1 7 = Inr (1, ex_kstate\<lparr>icache := [ex_root, ex_free\<lparr>dev := 1, inum := 7, ref := 1, valid := 0\<rparr>]\<rparr>)
   \<and> iget ex_full 1 7 = Inl (Panic ''iget: no inodes'')
   \<and> ds (ex_kstate\<lparr>icache := [ex_root\<lparr>ref := 2\<rparr>, ex_free]\<rparr>) = ds ex_kstate"
proof -
  have c0: "cached (icache ex_kstate ! 0) 1 1"
    by (simp add: cached_def ex_kstate_def ex_root_def)
  have n7: "\<forall>j<length (icache ex_kstate). \<not> cached (icache ex_kstate ! j) 1 7"
    by (simp add: cached_def ex_kstate_def ex_root_def ex_free_def less_Suc_eq)
  have n7': "\<forall>j<length (icache ex_full). \<not> cached (icache ex_full ! j) 1 7"
    by (simp add: cached_def ex_full_def ex_root_def)
  have p: "\<forall>j<length (icache ex_full). 0 < sint (ref (icache ex_full ! j))"
    by (simp add: ex_full_def ex_root_def)
  have z: "ref (icache ex_kstate ! 1) = 0" "\<forall>j<1. ref (icache ex_kstate ! j) \<noteq> 0"
    by (simp_all add: ex_kstate_def ex_root_def ex_free_def)
  note t = iget_lookup_or_claim [of ex_kstate 1 1] iget_lookup_or_claim [of ex_kstate 1 7]
    iget_lookup_or_claim [of ex_full 1 7]
  have a: "iget ex_kstate 1 1 = Inr (0, ex_kstate\<lparr>icache := [ex_root\<lparr>ref := 2\<rparr>, ex_free]\<rparr>)"
    using t(1) [THEN conjunct1, THEN spec, of 0] c0
    by (simp add: ex_kstate_def ex_root_def)
  have b: "iget ex_kstate 1 7 = Inr (1, ex_kstate\<lparr>icache := [ex_root, ex_free\<lparr>dev := 1, inum := 7, ref := 1, valid := 0\<rparr>]\<rparr>)"
    using t(2) [THEN conjunct2, THEN conjunct1, THEN mp, OF n7, THEN conjunct1, THEN spec, of 1] z
    by (simp add: ex_kstate_def)
  have c: "iget ex_full 1 7 = Inl (Panic ''iget: no inodes'')"
    using t(3) [THEN conjunct2, THEN conjunct1, THEN mp, OF n7', THEN conjunct2, THEN mp, OF p] .
  have d: "ds (ex_kstate\<lparr>icache := [ex_root\<lparr>ref := 2\<rparr>, ex_free]\<rparr>) = ds ex_kstate"
    using t(1) [THEN conjunct2, THEN conjunct2, THEN spec, THEN spec, THEN mp, OF a] .
  from a b c d show ?thesis by simp
qed

section \<open>Truncation frees every block of the file\<close>


lemma bclear_sb [simp]: "sb (bclear s dv b) = sb s"
  by (simp add: bclear_def Let_def)

lemma bclear_logw: "logw (bclear s dv b) = logw s @ [(dv, BBLOCK b (sb s))]"
  by (simp add: bclear_def Let_def log_write_def buf_set_def)













lemma iupdate_sb [simp]: "sb (iupdate s ip) = sb s"
  by (simp add: iupdate_def Let_def)



















section \<open>Write: the content after a write\<close>












section \<open>Resolution of empty and all-separator paths\<close>

lemma skip_slashes_only: "set path \<subseteq> {SLASH} \<Longrightarrow> skip_slashes path = []"
  by (induction path) auto

lemma skipelem_only_slashes: "set path \<subseteq> {SLASH} \<Longrightarrow> skipelem path name = None"
  by (simp add: skipelem_def skip_slashes_only peek_def)

lemma peek_only_slashes: "set path \<subseteq> {SLASH} \<Longrightarrow> (peek path = SLASH) = (path \<noteq> [])"
  by (cases path) (auto simp: peek_def SLASH_def)

text \<open>
  C9, as the code has it: for a path that is empty or consists only of separators, the
  loop of \<open>namex\<close> never runs. The starting inode is the current directory with one more
  reference for the empty path, and the root inode obtained by \<open>iget\<close> for a path of
  separators. With \<open>nameiparent\<close> set, \<open>namex\<close> is exactly the release of that inode by
  \<open>iput\<close> followed by the return of no handle; it fails only where obtaining or releasing
  the starting inode fails. With \<open>nameiparent\<close> clear the starting inode itself is
  returned as the handle. The name buffer is left as it was.
\<close>

theorem namex_only_separators:
  assumes "set path \<subseteq> {SLASH}"
  shows "namex devsw ks path True name =
           (case (if path = [] then Inr (idup ks (cwd ks)) else iget ks ROOTDEV ROOTINO) of
              Inl e \<Rightarrow> Inl e
            | Inr (ip, ks1) \<Rightarrow>
                (case iput ks1 ip of Inl e \<Rightarrow> Inl e | Inr ks2 \<Rightarrow> Inr (None, ks2, name)))
       \<and> namex devsw ks path False name =
           (case (if path = [] then Inr (idup ks (cwd ks)) else iget ks ROOTDEV ROOTINO) of
              Inl e \<Rightarrow> Inl e
            | Inr (ip, ks1) \<Rightarrow> Inr (Some ip, ks1, name))"
proof
  show "namex devsw ks path True name =
           (case (if path = [] then Inr (idup ks (cwd ks)) else iget ks ROOTDEV ROOTINO) of
              Inl e \<Rightarrow> Inl e
            | Inr (ip, ks1) \<Rightarrow>
                (case iput ks1 ip of Inl e \<Rightarrow> Inl e | Inr ks2 \<Rightarrow> Inr (None, ks2, name)))"
    using skipelem_only_slashes [OF assms] peek_only_slashes [OF assms]
    by (auto simp: namex_def namex_loop.simps split: sum.splits)
next
  show "namex devsw ks path False name =
           (case (if path = [] then Inr (idup ks (cwd ks)) else iget ks ROOTDEV ROOTINO) of
              Inl e \<Rightarrow> Inl e
            | Inr (ip, ks1) \<Rightarrow> Inr (Some ip, ks1, name))"
    using skipelem_only_slashes [OF assms] peek_only_slashes [OF assms]
    by (auto simp: namex_def namex_loop.simps split: sum.splits)
qed

lemma ex_iget_root: "iget ex_kstate ROOTDEV ROOTINO = Inr (0, ex_kstate\<lparr>icache := [ex_root\<lparr>ref := 2\<rparr>, ex_free]\<rparr>)"
  by (simp add: iget_def ROOTDEV_def ROOTINO_def ex_kstate_def ex_root_def ex_free_def)

lemma ex_iput_root: "iput (ex_kstate\<lparr>icache := [ex_root\<lparr>ref := 2\<rparr>, ex_free]\<rparr>) 0 = Inr ex_kstate"
  by (simp add: iput_def acquiresleep_def releasesleep_def ex_kstate_def ex_root_def)

lemma ex_idup_cwd: "idup ex_kstate (cwd ex_kstate) = (0, ex_kstate\<lparr>icache := [ex_root\<lparr>ref := 2\<rparr>, ex_free]\<rparr>)"
  by (simp add: idup_def ex_kstate_def ex_root_def)

theorem namex_only_separators_witness:
  "namex ex_devsw ex_kstate [SLASH, SLASH, SLASH, SLASH] True (\<lambda>_. 0) = Inr (None, ex_kstate, \<lambda>_. 0)
   \<and> namex ex_devsw ex_kstate [] True (\<lambda>_. 0) = Inr (None, ex_kstate, \<lambda>_. 0)
   \<and> namex ex_devsw ex_kstate [SLASH, SLASH, SLASH, SLASH] False (\<lambda>_. 0)
       = Inr (Some 0, ex_kstate\<lparr>icache := [ex_root\<lparr>ref := 2\<rparr>, ex_free]\<rparr>, \<lambda>_. 0)
   \<and> namex ex_devsw (ex_kstate\<lparr>icache := [ex_root\<lparr>locked := True\<rparr>, ex_free]\<rparr>) [SLASH] True (\<lambda>_. 0)
       = Inl Deadlock"
proof -
  have p: "set [SLASH, SLASH, SLASH, SLASH] \<subseteq> {SLASH}" "set ([] :: u8 list) \<subseteq> {SLASH}"
      "set [SLASH] \<subseteq> {SLASH}"
    by simp_all
  have g: "iget (ex_kstate\<lparr>icache := [ex_root\<lparr>locked := True\<rparr>, ex_free]\<rparr>) ROOTDEV ROOTINO
      = Inr (0, ex_kstate\<lparr>icache := [ex_root\<lparr>locked := True, ref := 2\<rparr>, ex_free]\<rparr>)"
    by (simp add: iget_def ROOTDEV_def ROOTINO_def ex_kstate_def ex_root_def ex_free_def)
  have d: "iput (ex_kstate\<lparr>icache := [ex_root\<lparr>locked := True, ref := 2\<rparr>, ex_free]\<rparr>) 0 = Inl Deadlock"
    by (simp add: iput_def acquiresleep_def ex_kstate_def ex_root_def)
  from namex_only_separators [OF p(1), of ex_devsw ex_kstate "\<lambda>_. 0"]
    namex_only_separators [OF p(2), of ex_devsw ex_kstate "\<lambda>_. 0"]
    namex_only_separators [OF p(3), of ex_devsw "ex_kstate\<lparr>icache := [ex_root\<lparr>locked := True\<rparr>, ex_free]\<rparr>" "\<lambda>_. 0"]
  show ?thesis
    by (simp add: ex_iget_root ex_iput_root ex_idup_cwd g d)
qed

text \<open>
  The claim as stated fails for \<open>nameiparent = 0\<close>: the empty path resolves to the current
  directory and \<open>////\<close> to the root inode, each returned as a handle.
\<close>

theorem namex_only_separators_counterexample:
  "namex ex_devsw ex_kstate [] False (\<lambda>_. 0)
     = Inr (Some 0, ex_kstate\<lparr>icache := [ex_root\<lparr>ref := 2\<rparr>, ex_free]\<rparr>, \<lambda>_. 0)
   \<and> namex ex_devsw ex_kstate [SLASH, SLASH, SLASH, SLASH] False (\<lambda>_. 0)
     = Inr (Some 0, ex_kstate\<lparr>icache := [ex_root\<lparr>ref := 2\<rparr>, ex_free]\<rparr>, \<lambda>_. 0)"
  by (simp add: namex_def namex_loop.simps skipelem_only_slashes peek_def SLASH_def ex_idup_cwd ex_iget_root)

end
